theory Spec2Isabelle
  imports Main
begin

section \<open>The idle-time monitor of InputDeviceListener.h\<close>

text \<open>
  The header \<^verbatim>\<open>src/InputDeviceListener.h\<close> holds one class, \<^verbatim>\<open>InputDeviceListener\<close>, and
  on Linux a private class \<^verbatim>\<open>InputDevice\<close>, the device discovery
  \<^verbatim>\<open>availableInputDevices\<close>, the pool manager \<^verbatim>\<open>openInputDevices\<close> and the worker
  \<^verbatim>\<open>run\<close>. Each of them is embedded below as a HOL function of the same name.

  Everything the code asks of the operating system (the registry file, \<^verbatim>\<open>access\<close>,
  \<^verbatim>\<open>open\<close>, \<^verbatim>\<open>select\<close>, \<^verbatim>\<open>read\<close>, the monotonic clock, and the running flag that another
  thread may clear) is answered by an environment \<open>env\<close>: a record of functions of the
  number of questions asked so far, so that the same question may get a different answer
  later. The calls that change the operating system are logged in a trace.
\<close>

subsection \<open>Errors\<close>

datatype error =
    invalid_argument   \<comment> \<open>thrown by \<^verbatim>\<open>std::stoi\<close> when no digit can be converted\<close>
  | out_of_range       \<comment> \<open>thrown by \<^verbatim>\<open>std::string::erase\<close> when the position is beyond the size\<close>
  | fd_set_undefined   \<comment> \<open>\<^verbatim>\<open>FD_SET\<close> on a descriptor outside \<open>0 \<dots> FD_SETSIZE - 1\<close>: undefined behaviour\<close>
  | back_of_empty      \<comment> \<open>\<^verbatim>\<open>back()\<close> on an empty vector: undefined behaviour\<close>

subsection \<open>The environment and the trace of system calls\<close>

datatype syscall =
    SysOpen string int      \<comment> \<open>\<^verbatim>\<open>::open(path, O_RDONLY)\<close> and what it returned\<close>
  | SysClose int            \<comment> \<open>\<^verbatim>\<open>::close(fd)\<close>\<close>
  | SysSelect int "int set" \<comment> \<open>\<^verbatim>\<open>::select(nfds, &rfds, ...)\<close> with the set it waits on\<close>
  | SysRead int             \<comment> \<open>\<^verbatim>\<open>::read(fd, &event, sizeof(event))\<close>\<close>
  | SysSleep nat            \<comment> \<open>\<^verbatim>\<open>sleep_for\<close>, in milliseconds\<close>

record env =
  registry :: "nat \<Rightarrow> string option"
    \<comment> \<open>the content of \<^verbatim>\<open>/proc/bus/input/devices\<close>; \<open>None\<close> when it cannot be opened\<close>
  sys_access :: "nat \<Rightarrow> string \<Rightarrow> bool"
    \<comment> \<open>\<^verbatim>\<open>::access(path, F_OK) == 0\<close>\<close>
  sys_open :: "nat \<Rightarrow> string \<Rightarrow> int"
    \<comment> \<open>the result of \<^verbatim>\<open>::open(path, O_RDONLY)\<close>: a descriptor, or negative\<close>
  clock_gettime :: "nat \<Rightarrow> int"
    \<comment> \<open>\<^verbatim>\<open>tv_sec\<close> of \<^verbatim>\<open>CLOCK_MONOTONIC\<close>\<close>
  load_isRunning :: "nat \<Rightarrow> bool"
    \<comment> \<open>what the worker reads from the atomic \<^verbatim>\<open>m_isRunning\<close>, which \<^verbatim>\<open>stop()\<close> clears\<close>
  sys_select :: "nat \<Rightarrow> int \<Rightarrow> int set \<Rightarrow> int \<times> int set"
    \<comment> \<open>the result of \<^verbatim>\<open>::select\<close> and the descriptors it leaves in \<^verbatim>\<open>rfds\<close>\<close>
  sys_read :: "nat \<Rightarrow> int \<Rightarrow> int \<times> nat"
    \<comment> \<open>the result of \<^verbatim>\<open>::read\<close> and the \<^verbatim>\<open>type\<close> of the event it filled in\<close>

record world =
  tick :: nat              \<comment> \<open>how many questions the environment has answered\<close>
  trace :: "syscall list"  \<comment> \<open>the system calls made so far, oldest first\<close>

definition asked :: "world \<Rightarrow> world" where
  "asked w = w\<lparr>tick := Suc (tick w)\<rparr>"

definition called :: "syscall \<Rightarrow> world \<Rightarrow> world" where
  "called c w = w\<lparr>tick := Suc (tick w), trace := trace w @ [c]\<rparr>"

subsection \<open>Device descriptor (class InputDevice)\<close>

record InputDevice =
  m_fd :: int
  m_id :: string
  m_name :: string
  m_handler :: string

text \<open>The constructor \<^verbatim>\<open>InputDevice(id, name, handler)\<close>: the handle starts at \<open>-1\<close>.\<close>

definition InputDevice_ctor :: "string \<Rightarrow> string \<Rightarrow> string \<Rightarrow> InputDevice" where
  "InputDevice_ctor ident name handler =
     \<lparr>m_fd = - 1, m_id = ident, m_name = name, m_handler = handler\<rparr>"

text \<open>
  What a move (\<^verbatim>\<open>operator=(InputDevice &&)\<close>) leaves behind: the handle is set to \<open>-1\<close>
  explicitly, and the three strings were moved from, which leaves them empty in libstdc++ and
  libc++.
\<close>

definition moved_from :: "InputDevice \<Rightarrow> InputDevice" where
  "moved_from d = d\<lparr>m_fd := - 1, m_id := [], m_name := [], m_handler := []\<rparr>"

text \<open>
  \<^verbatim>\<open>isOpened()\<close>, as written: when the path exists the result is \<^verbatim>\<open>(m_fd == -1)\<close>.
\<close>

definition InputDevice_isOpened :: "env \<Rightarrow> InputDevice \<Rightarrow> world \<Rightarrow> bool \<times> world" where
  "InputDevice_isOpened e d w =
     (if sys_access e (tick w) (m_handler d) then (m_fd d = - 1, asked w)
      else (False, asked w))"

definition InputDevice_open :: "env \<Rightarrow> InputDevice \<Rightarrow> world \<Rightarrow> bool \<times> InputDevice \<times> world" where
  "InputDevice_open e d w =
     (if m_fd d \<noteq> - 1 then (True, d, w)
      else if m_handler d = [] then (False, d, w)
      else
        let fd = sys_open e (tick w) (m_handler d);
            w' = called (SysOpen (m_handler d) fd) w
        in if fd < 0 then (False, d, w') else (True, d\<lparr>m_fd := fd\<rparr>, w'))"

definition InputDevice_close :: "InputDevice \<Rightarrow> world \<Rightarrow> InputDevice \<times> world" where
  "InputDevice_close d w =
     (if m_fd d \<noteq> - 1 then (d\<lparr>m_fd := - 1\<rparr>, called (SysClose (m_fd d)) w) else (d, w))"

definition InputDevice_fd :: "InputDevice \<Rightarrow> int" where
  "InputDevice_fd d = m_fd d"

definition InputDevice_id :: "InputDevice \<Rightarrow> string" where
  "InputDevice_id d = m_name d"

definition InputDevice_name :: "InputDevice \<Rightarrow> string" where
  "InputDevice_name d = m_id d"

text \<open>\<^verbatim>\<open>operator==\<close>, \<^verbatim>\<open>operator<\<close> and the conversion to \<^verbatim>\<open>int\<close>.\<close>

definition InputDevice_eq :: "InputDevice \<Rightarrow> InputDevice \<Rightarrow> bool" where
  "InputDevice_eq d other =
     (if m_handler d \<noteq> [] \<and> m_handler d = m_handler other then True
      else m_id d = m_id other)"

definition InputDevice_less :: "InputDevice \<Rightarrow> InputDevice \<Rightarrow> bool" where
  "InputDevice_less d other = (m_fd d < m_fd other)"

definition InputDevice_int :: "InputDevice \<Rightarrow> int" where
  "InputDevice_int d = m_fd d"

subsection \<open>Strings (std::string)\<close>

text \<open>
  \<^verbatim>\<open>s.find(pat, begin)\<close>: the first position at or after \<open>begin\<close> where \<open>pat\<close> occurs,
  \<open>None\<close> for \<^verbatim>\<open>npos\<close>.
\<close>

fun find_here :: "string \<Rightarrow> string \<Rightarrow> nat option" where
  "find_here pat [] = (if pat = [] then Some 0 else None)"
| "find_here pat (c # cs) =
     (if take (length pat) (c # cs) = pat then Some 0
      else map_option Suc (find_here pat cs))"

definition str_find :: "string \<Rightarrow> string \<Rightarrow> nat \<Rightarrow> nat option" where
  "str_find s pat start =
     (if length s < start then None
      else map_option (\<lambda>k. start + k) (find_here pat (drop start s)))"

text \<open>\<^verbatim>\<open>s.substr(pos, n)\<close> and \<^verbatim>\<open>s.substr(pos)\<close>, used only with \<open>pos \<le> size\<close>.\<close>

definition substr :: "string \<Rightarrow> nat \<Rightarrow> nat \<Rightarrow> string" where
  "substr s pos n = take n (drop pos s)"

definition substr_from :: "string \<Rightarrow> nat \<Rightarrow> string" where
  "substr_from s pos = drop pos s"

text \<open>
  \<^verbatim>\<open>s.find_first_not_of(c)\<close> and \<^verbatim>\<open>s.find_last_not_of(c)\<close>, \<open>None\<close> for \<^verbatim>\<open>npos\<close>.
\<close>

fun find_first_not_of :: "char \<Rightarrow> string \<Rightarrow> nat option" where
  "find_first_not_of c [] = None"
| "find_first_not_of c (x # xs) =
     (if x \<noteq> c then Some 0 else map_option Suc (find_first_not_of c xs))"

definition find_last_not_of :: "char \<Rightarrow> string \<Rightarrow> nat option" where
  "find_last_not_of c s =
     map_option (\<lambda>k. length s - 1 - k) (find_first_not_of c (rev s))"

text \<open>
  \<^verbatim>\<open>s.erase(pos, n)\<close> removes \<open>min n (size - pos)\<close> characters from \<open>pos\<close> on and throws
  when \<open>pos > size\<close>. The count \<open>None\<close> is \<^verbatim>\<open>npos\<close>: up to the end.
\<close>

definition erase :: "string \<Rightarrow> nat \<Rightarrow> nat option \<Rightarrow> error + string" where
  "erase s pos n =
     (if length s < pos then Inl out_of_range
      else Inr (take pos s @
                drop (pos + (case n of None \<Rightarrow> length s - pos
                                     | Some k \<Rightarrow> min k (length s - pos))) s))"

text \<open>
  \<^verbatim>\<open>npos + 1\<close> is computed in \<^verbatim>\<open>size_t\<close>, where it wraps to \<open>0\<close>; a found position is
  below the size of the string, so its successor does not wrap.
\<close>

definition size_t_succ :: "nat option \<Rightarrow> nat" where
  "size_t_succ p = (case p of None \<Rightarrow> 0 | Some k \<Rightarrow> k + 1)"

text \<open>
  The tokens that \<^verbatim>\<open>while (std::getline(ss, token, delim))\<close> yields: the text between
  delimiters, and the text after the last delimiter when it is not empty.
\<close>

fun getline_all :: "char \<Rightarrow> string \<Rightarrow> string \<Rightarrow> string list" where
  "getline_all delim token [] = (if token = [] then [] else [token])"
| "getline_all delim token (c # cs) =
     (if c = delim then token # getline_all delim [] cs
      else getline_all delim (token @ [c]) cs)"

text \<open>
  \<^verbatim>\<open>std::stoi(std::string{c}, nullptr, 16)\<close> on a string of one character: the value of a
  hexadecimal digit, and \<^verbatim>\<open>std::invalid_argument\<close> for any other character (a lone
  sign, blank or \<^verbatim>\<open>x\<close> converts no digit).
\<close>

definition stoi16 :: "char \<Rightarrow> error + int" where
  "stoi16 c =
     (let n = (of_char c :: nat) in
      if 48 \<le> n \<and> n \<le> 57 then Inr (int n - 48)
      else if 97 \<le> n \<and> n \<le> 102 then Inr (int n - 87)
      else if 65 \<le> n \<and> n \<le> 70 then Inr (int n - 55)
      else Inl invalid_argument)"

subsection \<open>Device discovery (availableInputDevices)\<close>

text \<open>
  The event classes come from \<^verbatim>\<open>linux/input.h\<close>, which is not part of the repository:
  \<^verbatim>\<open>EV_KEY\<close> is 1, \<^verbatim>\<open>EV_REL\<close> is 2 and \<^verbatim>\<open>EV_ABS\<close> is 3.
\<close>

definition EV_KEY :: int where "EV_KEY = 1"
definition EV_REL :: int where "EV_REL = 2"
definition EV_ABS :: int where "EV_ABS = 3"

definition devicePath :: string where "devicePath = ''/dev/input/''"
definition idPrefix :: string where "idPrefix = ''I: ''"
definition namePrefix :: string where "namePrefix = ''N: Name=''"
definition handlerPrefix :: string where "handlerPrefix = ''H: Handlers=''"
definition eventPrefix :: string where "eventPrefix = ''B: EV=''"
definition sep :: string where "sep = [CHR 0x0A, CHR 0x0A]"
definition quote :: char where "quote = CHR 0x22"

definition bits :: "int list" where
  "bits = [0x01, 0x02, 0x04, 0x88]"

text \<open>
  The loop that cuts the content at every blank line. Text after the last separator is
  never pushed.
\<close>

lemma find_here_bound: "find_here pat s = Some k \<Longrightarrow> k + length pat \<le> length s"
proof (induction s arbitrary: k)
  case Nil
  then show ?case by (simp split: if_splits)
next
  case (Cons c cs)
  show ?case
  proof (cases "take (length pat) (c # cs) = pat")
    case True
    then have "length (take (length pat) (c # cs)) = length pat"
      by simp
    then have "length pat \<le> length (c # cs)"
      by (simp only: length_take)
    with True Cons.prems show ?thesis by simp
  next
    case False
    with Cons.prems obtain k' where "find_here pat cs = Some k'" "k = Suc k'"
      by auto
    with Cons.IH show ?thesis by fastforce
  qed
qed

lemma str_find_bound:
  "str_find s pat b = Some e \<Longrightarrow> b \<le> e \<and> e + length pat \<le> length s"
  by (auto simp: str_find_def split: if_splits dest!: find_here_bound)

function split_blocks :: "string \<Rightarrow> nat \<Rightarrow> string list" where
  "split_blocks content start =
     (case str_find content sep start of
        None \<Rightarrow> []
      | Some e \<Rightarrow>
          let token = substr content start (e - start) in
          if token \<noteq> []
          then token # split_blocks content (start + length token + length sep)
          else split_blocks content (start + length sep))"
  by pat_completeness auto
termination
proof (relation "measure (\<lambda>(content, start). Suc (length content) - start)")
  show "wf (measure (\<lambda>(content, start). Suc (length content) - start))"
    by simp
next
  fix content :: string and start e token
  assume f: "str_find content sep start = Some e"
    and t: "token = substr content start (e - start)"
  from str_find_bound [OF f] have b: "start \<le> e" "e + 2 \<le> length content"
    by (simp_all add: sep_def)
  then have l: "length token = e - start"
    by (simp add: t substr_def)
  {
    assume "token \<noteq> []"
    with b l show "((content, start + length token + length sep), content, start)
        \<in> measure (\<lambda>(content, start). Suc (length content) - start)"
      by (simp add: sep_def)
  }
  {
    assume "\<not> token \<noteq> []"
    with b l show "((content, start + length sep), content, start)
        \<in> measure (\<lambda>(content, start). Suc (length content) - start)"
      by (simp add: sep_def)
  }
qed

text \<open>The non-empty lines of one block.\<close>

definition block_props :: "string \<Rightarrow> string list" where
  "block_props info = filter (\<lambda>token. token \<noteq> []) (getline_all (CHR 0x0A) [] info)"

text \<open>The four variables that the scan of a block fills in.\<close>

record block =
  dev_id :: string
  dev_name :: string
  dev_handler :: string
  isInputDevice :: bool

definition block_init :: block where
  "block_init = \<lparr>dev_id = [], dev_name = [], dev_handler = [], isInputDevice = False\<rparr>"

text \<open>The name line: the two \<^verbatim>\<open>erase\<close> calls on a non-empty name.\<close>

definition strip_name :: "string \<Rightarrow> error + string" where
  "strip_name name =
     (if name \<noteq> [] then
        (case erase name 0 (find_first_not_of quote name) of
           Inl err \<Rightarrow> Inl err
         | Inr name1 \<Rightarrow> erase name1 (size_t_succ (find_last_not_of quote name1)) None)
      else Inr name)"

text \<open>
  The handlers line: the first token that is not empty and begins with \<^verbatim>\<open>event\<close> gives the
  access path; with no such token the handler keeps its value.
\<close>

definition pick_handler :: "string \<Rightarrow> string \<Rightarrow> string" where
  "pick_handler rest handler =
     (case List.find (\<lambda>token. token \<noteq> [] \<and> str_find token ''event'' 0 = Some 0)
             (getline_all (CHR 0x20) [] rest) of
        None \<Rightarrow> handler
      | Some token \<Rightarrow> devicePath @ token)"

text \<open>
  The capability line. \<open>scan_bits\<close> is the loop over \<open>k\<close> for one hexadecimal digit \<open>n\<close>,
  on the counters \<open>i\<close> and \<open>j\<close> and the flag; its \<^verbatim>\<open>break\<close> leaves the counters as they are.
  \<open>scan_ev\<close> is the loop over the digits, which the caller hands over last digit first.
  The counters are C \<^verbatim>\<open>int\<close>s; \<open>j\<close> stays below \<open>2^31\<close> unless the line has more than
  five hundred million digits.
\<close>

fun scan_bits :: "int \<Rightarrow> int list \<Rightarrow> int \<times> int \<times> bool \<Rightarrow> int \<times> int \<times> bool" where
  "scan_bits n [] st = st"
| "scan_bits n (b # bs) (i, j, flag) =
     (if and n b \<noteq> 0 \<and> (i + j = EV_KEY \<or> i + j = EV_REL \<or> i + j = EV_ABS)
      then (i, j, True)
      else if i + 1 > 9 then scan_bits n bs (0, j + 10, flag)
      else scan_bits n bs (i + 1, j, flag))"

fun scan_ev :: "string \<Rightarrow> int \<times> int \<times> bool \<Rightarrow> error + int \<times> int \<times> bool" where
  "scan_ev [] st = Inr st"
| "scan_ev (c # cs) st =
     (case stoi16 c of
        Inl err \<Rightarrow> Inl err
      | Inr n \<Rightarrow> scan_ev cs (scan_bits n bits st))"

definition event_line :: "string \<Rightarrow> bool \<Rightarrow> error + bool" where
  "event_line ev flag =
     (case scan_ev (rev ev) (0, 0, flag) of
        Inl err \<Rightarrow> Inl err
      | Inr (i, j, flag') \<Rightarrow> Inr flag')"

text \<open>One line of a block: the chain of \<^verbatim>\<open>if\<close> / \<^verbatim>\<open>else if\<close> on the four prefixes.\<close>

definition process_prop :: "string \<Rightarrow> block \<Rightarrow> error + block" where
  "process_prop prop b =
     (if str_find prop idPrefix 0 = Some 0
      then Inr (b\<lparr>dev_id := substr_from prop (length idPrefix)\<rparr>)
      else if str_find prop namePrefix 0 = Some 0
      then (case strip_name (substr_from prop (length namePrefix)) of
              Inl err \<Rightarrow> Inl err
            | Inr name \<Rightarrow> Inr (b\<lparr>dev_name := name\<rparr>))
      else if str_find prop handlerPrefix 0 = Some 0
      then Inr (b\<lparr>dev_handler :=
                    pick_handler (substr_from prop (length handlerPrefix)) (dev_handler b)\<rparr>)
      else if str_find prop eventPrefix 0 = Some 0
      then (case event_line (substr_from prop (length eventPrefix)) (isInputDevice b) of
              Inl err \<Rightarrow> Inl err
            | Inr flag \<Rightarrow> Inr (b\<lparr>isInputDevice := flag\<rparr>))
      else Inr b)"

fun process_props :: "string list \<Rightarrow> block \<Rightarrow> error + block" where
  "process_props [] b = Inr b"
| "process_props (prop # props) b =
     (case process_prop prop b of
        Inl err \<Rightarrow> Inl err
      | Inr b' \<Rightarrow> process_props props b')"

text \<open>The end of the loop body: which descriptor, if any, a scanned block adds.\<close>

definition emit :: "block \<Rightarrow> InputDevice list \<Rightarrow> InputDevice list" where
  "emit b devices =
     (if isInputDevice b \<and> dev_handler b \<noteq> []
      then devices @ [InputDevice_ctor (dev_id b) (dev_name b) (dev_handler b)]
      else devices)"

text \<open>The body of the loop over the blocks, and the loop.\<close>

definition scan_block :: "string \<Rightarrow> InputDevice list \<Rightarrow> error + InputDevice list" where
  "scan_block info devices =
     (let props = block_props info in
      if props = [] then Inr devices
      else (case process_props props block_init of
              Inl err \<Rightarrow> Inl err
            | Inr b \<Rightarrow> Inr (emit b devices)))"

fun scan_blocks :: "string list \<Rightarrow> InputDevice list \<Rightarrow> error + InputDevice list" where
  "scan_blocks [] devices = Inr devices"
| "scan_blocks (info # infos) devices =
     (case scan_block info devices of
        Inl err \<Rightarrow> Inl err
      | Inr devices' \<Rightarrow> scan_blocks infos devices')"

text \<open>
  \<^verbatim>\<open>availableInputDevices(devices)\<close>: \<open>file\<close> is what opening the registry gave, \<open>None\<close>
  when \<^verbatim>\<open>ifs.is_open()\<close> is false.
\<close>

definition availableInputDevices ::
  "string option \<Rightarrow> InputDevice list \<Rightarrow> error + InputDevice list" where
  "availableInputDevices file devices =
     (case file of
        None \<Rightarrow> Inr devices
      | Some content \<Rightarrow> scan_blocks (split_blocks content 0) devices)"

subsection \<open>Pool manager (openInputDevices)\<close>

text \<open>
  An \<^verbatim>\<open>fd_set\<close> is the set of descriptors whose bit is set. \<^verbatim>\<open>FD_SET\<close> is defined for
  descriptors from \<open>0\<close> to \<^verbatim>\<open>FD_SETSIZE - 1\<close> only (\<^verbatim>\<open>sys/select.h\<close>, where
  \<^verbatim>\<open>FD_SETSIZE\<close> is 1024).
\<close>

definition FD_SETSIZE :: int where "FD_SETSIZE = 1024"

definition FD_SET :: "int \<Rightarrow> int set \<Rightarrow> error + int set" where
  "FD_SET fd fds =
     (if fd < 0 \<or> FD_SETSIZE \<le> fd then Inl fd_set_undefined else Inr (insert fd fds))"

definition FD_CLR :: "int \<Rightarrow> int set \<Rightarrow> int set" where
  "FD_CLR fd fds = fds - {fd}"

definition FD_ISSET :: "int \<Rightarrow> int set \<Rightarrow> bool" where
  "FD_ISSET fd fds = (fd \<in> fds)"

text \<open>\<^verbatim>\<open>std::find_if\<close>: the position of the first element that satisfies the predicate.\<close>

fun find_if :: "('a \<Rightarrow> bool) \<Rightarrow> 'a list \<Rightarrow> nat option" where
  "find_if P [] = None"
| "find_if P (x # xs) = (if P x then Some 0 else map_option Suc (find_if P xs))"

text \<open>
  The variables of the loop over the discovered devices: the set \<^verbatim>\<open>allfds\<close>, the previous
  pool \<^verbatim>\<open>devices\<close> (whose elements are moved out of one by one), the new pool
  \<^verbatim>\<open>openedDevices\<close> and the world.
\<close>

record pool =
  p_allfds :: "int set"
  p_devices :: "InputDevice list"
  p_openedDevices :: "InputDevice list"
  p_world :: world

text \<open>The second \<^verbatim>\<open>if\<close> of the loop body: open the discovered descriptor and keep it.\<close>

definition open_discovered :: "env \<Rightarrow> InputDevice \<Rightarrow> pool \<Rightarrow> error + pool" where
  "open_discovered e it p =
     (case InputDevice_open e it (p_world p) of
        (ok, it', w') \<Rightarrow>
          if ok then
            (case FD_SET (InputDevice_int it') (p_allfds p) of
               Inl err \<Rightarrow> Inl err
             | Inr fds \<Rightarrow>
                 Inr (p\<lparr>p_allfds := fds,
                        p_openedDevices := p_openedDevices p @ [it'],
                        p_world := w'\<rparr>))
          else Inr (p\<lparr>p_world := w'\<rparr>))"

text \<open>
  The loop body for one discovered descriptor \<open>it\<close>: look for an equal descriptor \<open>dIt\<close> in
  the previous pool; keep \<open>dIt\<close> when \<^verbatim>\<open>dIt->isOpened()\<close> says so, and open \<open>it\<close>
  otherwise.
\<close>

definition reconcile_one :: "env \<Rightarrow> InputDevice \<Rightarrow> pool \<Rightarrow> error + pool" where
  "reconcile_one e it p =
     (case find_if (\<lambda>dev. InputDevice_eq it dev) (p_devices p) of
        None \<Rightarrow> open_discovered e it p
      | Some k \<Rightarrow>
          let dIt = p_devices p ! k in
          (case InputDevice_isOpened e dIt (p_world p) of
             (isOpened, w') \<Rightarrow>
               if isOpened then
                 (case FD_SET (InputDevice_int dIt) (p_allfds p) of
                    Inl err \<Rightarrow> Inl err
                  | Inr fds \<Rightarrow>
                      Inr (p\<lparr>p_allfds := fds,
                             p_devices := (p_devices p)[k := moved_from dIt],
                             p_openedDevices := p_openedDevices p @ [dIt],
                             p_world := w'\<rparr>))
               else open_discovered e it (p\<lparr>p_world := w'\<rparr>)))"

fun reconcile_all :: "env \<Rightarrow> InputDevice list \<Rightarrow> pool \<Rightarrow> error + pool" where
  "reconcile_all e [] p = Inr p"
| "reconcile_all e (it # its) p =
     (case reconcile_one e it p of
        Inl err \<Rightarrow> Inl err
      | Inr p' \<Rightarrow> reconcile_all e its p')"

text \<open>
  The destructor of a vector of descriptors runs \<^verbatim>\<open>close()\<close> on each element. It runs
  on the previous pool, which \<^verbatim>\<open>swap\<close> left in the local \<^verbatim>\<open>openedDevices\<close>. (The local
  \<^verbatim>\<open>allDevices\<close> is destroyed too, but each of its elements has the handle \<open>-1\<close>: it was
  never opened, or failed to open, or was moved from.)
\<close>

fun destroy_all :: "InputDevice list \<Rightarrow> world \<Rightarrow> world" where
  "destroy_all [] w = w"
| "destroy_all (d # ds) w = destroy_all ds (snd (InputDevice_close d w))"

text \<open>
  \<^verbatim>\<open>openInputDevices(allfds, devices)\<close>. The sort by handle is \<^verbatim>\<open>std::sort\<close>, which may
  order descriptors that have the same handle either way; \<open>sort_key\<close> keeps them in their
  order.
\<close>

definition openInputDevices ::
  "env \<Rightarrow> int set \<times> InputDevice list \<times> world \<Rightarrow> error + int set \<times> InputDevice list \<times> world" where
  "openInputDevices e st =
     (case st of (allfds, devices, w) \<Rightarrow>
        (case availableInputDevices (registry e (tick w)) [] of
           Inl err \<Rightarrow> Inl err
         | Inr allDevices \<Rightarrow>
             (case reconcile_all e allDevices
                     \<lparr>p_allfds = {}, p_devices = devices, p_openedDevices = [],
                      p_world = asked w\<rparr> of
                Inl err \<Rightarrow> Inl err
              | Inr p \<Rightarrow>
                  Inr (p_allfds p, sort_key m_fd (p_openedDevices p),
                       destroy_all (p_devices p) (p_world p)))))"

text \<open>\<^verbatim>\<open>closeInputDevices(devices)\<close>: close each descriptor in place.\<close>

fun closeInputDevices :: "InputDevice list \<Rightarrow> world \<Rightarrow> InputDevice list \<times> world" where
  "closeInputDevices [] w = ([], w)"
| "closeInputDevices (d # ds) w =
     (case InputDevice_close d w of
        (d', w') \<Rightarrow> (case closeInputDevices ds w' of (ds', w'') \<Rightarrow> (d' # ds', w'')))"

subsection \<open>The monitor object (class InputDeviceListener)\<close>

text \<open>
  The two atomic members, and two counters that record what the code does to its thread
  and to its promise: how many worker threads \<^verbatim>\<open>listen()\<close> has started, and how many times
  a worker has called \<^verbatim>\<open>quitPromise.set_value\<close>.
\<close>

record InputDeviceListener =
  m_isRunning :: bool
  m_lastOperateTime :: int
  threads_started :: nat
  promises_set :: nat

definition InputDeviceListener_ctor :: InputDeviceListener where
  "InputDeviceListener_ctor =
     \<lparr>m_isRunning = False, m_lastOperateTime = 0, threads_started = 0, promises_set = 0\<rparr>"

definition isRunning :: "InputDeviceListener \<Rightarrow> bool" where
  "isRunning this = m_isRunning this"

definition lastOperateTime :: "InputDeviceListener \<Rightarrow> int" where
  "lastOperateTime this = m_lastOperateTime this"

text \<open>
  \<^verbatim>\<open>listen()\<close>, and \<^verbatim>\<open>start()\<close>, which calls it under the lock. The thread that
  \<^verbatim>\<open>listen()\<close> starts is the function \<open>run\<close> below.
\<close>

definition listen :: "InputDeviceListener \<Rightarrow> bool \<times> InputDeviceListener" where
  "listen this =
     (if m_isRunning this then (True, this)
      else (True, this\<lparr>m_isRunning := True, threads_started := threads_started this + 1\<rparr>))"

definition start :: "InputDeviceListener \<Rightarrow> bool \<times> InputDeviceListener" where
  "start this = listen this"

subsection \<open>The worker (run)\<close>

text \<open>
  The locals of \<^verbatim>\<open>run\<close> and the object it works on. \<open>stores\<close> lists every value the
  worker has assigned to \<^verbatim>\<open>m_lastOperateTime\<close>, oldest first. \<open>t_now\<close> and \<open>t_last\<close>
  are the locals \<^verbatim>\<open>now\<close> and \<^verbatim>\<open>last\<close>, of type \<^verbatim>\<open>time_t\<close>; the clock counts seconds since
  boot, far from the bounds of the type.
\<close>

record worker =
  this :: InputDeviceListener
  devices :: "InputDevice list"
  allfds :: "int set"
  isListening :: bool
  t_now :: int
  t_last :: int
  stores :: "int list"
  os :: world

datatype outcome =
    Exited              \<comment> \<open>the worker left both loops and returned\<close>
  | Left_inner          \<comment> \<open>the inner loop ended; the outer loop goes on\<close>
  | Out_of_fuel         \<comment> \<open>the worker is still in its loops\<close>
  | Crashed error       \<comment> \<open>an exception left \<^verbatim>\<open>run\<close>, or the behaviour is undefined\<close>

datatype flow = Break | Continue | Undefined

text \<open>
  \<^verbatim>\<open>sizeof(struct input_event)\<close> on 64-bit Linux (\<^verbatim>\<open>linux/input.h\<close>): a \<^verbatim>\<open>timeval\<close> of 16
  bytes, two 16-bit fields and one 32-bit field.
\<close>

definition sizeof_event :: int where "sizeof_event = 24"

definition getCurrentTime :: "env \<Rightarrow> worker \<Rightarrow> int \<times> worker" where
  "getCurrentTime e s = (clock_gettime e (tick (os s)), s\<lparr>os := asked (os s)\<rparr>)"

text \<open>
  A load of the atomic \<^verbatim>\<open>m_isRunning\<close>: the worker reads what the other threads have left
  there.
\<close>

definition load_running :: "env \<Rightarrow> worker \<Rightarrow> bool \<times> worker" where
  "load_running e s =
     (let r = load_isRunning e (tick (os s))
      in (r, s\<lparr>this := (this s)\<lparr>m_isRunning := r\<rparr>, os := asked (os s)\<rparr>))"

definition store_lastOperateTime :: "int \<Rightarrow> worker \<Rightarrow> worker" where
  "store_lastOperateTime t s =
     s\<lparr>this := (this s)\<lparr>m_lastOperateTime := t\<rparr>, stores := stores s @ [t]\<rparr>"

text \<open>
  The loop over the pool after a \<^verbatim>\<open>select\<close> that found descriptors ready: \<open>seen\<close> are the
  descriptors before the iterator and \<open>it # rest\<close> the ones from the iterator on. A short
  read of more than zero bytes takes neither branch.
\<close>

fun read_ready ::
  "env \<Rightarrow> int set \<Rightarrow> InputDevice list \<Rightarrow> InputDevice list \<Rightarrow> worker \<Rightarrow> worker" where
  "read_ready e rfds seen [] s = s"
| "read_ready e rfds seen (it # rest) s =
     (if FD_ISSET (InputDevice_int it) rfds then
        (case sys_read e (tick (os s)) (InputDevice_int it) of
           (n, ty) \<Rightarrow>
             let s1 = s\<lparr>os := called (SysRead (InputDevice_int it)) (os s)\<rparr> in
             if n = sizeof_event then
               (if int ty = EV_KEY \<or> int ty = EV_REL \<or> int ty = EV_ABS then
                  (case getCurrentTime e s1 of
                     (t, s2) \<Rightarrow>
                       read_ready e rfds (seen @ [it]) rest (store_lastOperateTime t s2))
                else read_ready e rfds (seen @ [it]) rest s1)
             else if n \<le> 0 then
               (case InputDevice_close it (os s1) of
                  (it', w') \<Rightarrow>
                    s1\<lparr>allfds := FD_CLR (InputDevice_int it) (allfds s1),
                       devices := seen @ [it'] @ rest,
                       isListening := False,
                       os := w'\<rparr>)
             else read_ready e rfds (seen @ [it]) rest s1)
      else read_ready e rfds (seen @ [it]) rest s)"

text \<open>
  The staleness test of the inner loop, as written: \<^verbatim>\<open>last - now > 5\<close>.
\<close>

definition stale :: "worker \<Rightarrow> bool" where
  "stale s = (t_last s - t_now s > 5)"

text \<open>
  One pass through the body of the inner loop. \<^verbatim>\<open>devices.back()\<close> on an empty vector is
  undefined; the outer loop enters the inner loop with a pool that is not empty.
\<close>

definition inner_body :: "env \<Rightarrow> worker \<Rightarrow> flow \<times> worker" where
  "inner_body e s =
     (case getCurrentTime e s of
        (t, s1) \<Rightarrow>
          let s2 = s1\<lparr>t_now := t\<rparr> in
          if stale s2 then (Break, s2)
          else
            let s3 = s2\<lparr>t_last := t_now s2\<rparr> in
            if devices s3 = [] then (Undefined, s3)
            else
              let nfds = InputDevice_int (last (devices s3)) + 1 in
              (case sys_select e (tick (os s3)) nfds (allfds s3) of
                 (ret, rfds) \<Rightarrow>
                   let s4 = s3\<lparr>os := called (SysSelect nfds (allfds s3)) (os s3)\<rparr> in
                   if ret < 0 then (Break, s4)
                   else if ret = 0 then (Continue, s4)
                   else
                     let s5 = read_ready e rfds [] (devices s4) s4
                     in (Continue, s5\<lparr>os := called (SysSleep 1) (os s5)\<rparr>)))"

text \<open>
  The inner loop \<^verbatim>\<open>while (m_isRunning && isListening)\<close>, for at most \<open>fuel\<close> passes.
\<close>

fun inner_loop :: "nat \<Rightarrow> env \<Rightarrow> worker \<Rightarrow> outcome \<times> worker" where
  "inner_loop 0 e s = (Out_of_fuel, s)"
| "inner_loop (Suc fuel) e s =
     (case load_running e s of
        (r, s0) \<Rightarrow>
          if r \<and> isListening s0 then
            (case inner_body e s0 of
               (Break, s1) \<Rightarrow> (Left_inner, s1)
             | (Continue, s1) \<Rightarrow> inner_loop fuel e s1
             | (Undefined, s1) \<Rightarrow> (Crashed back_of_empty, s1))
          else (Left_inner, s0))"

text \<open>
  The outer loop \<^verbatim>\<open>while (m_isRunning)\<close>, for at most \<open>fuel\<close> passes, each with an inner
  loop of at most \<open>fuel\<close> passes.
\<close>

fun outer_loop :: "nat \<Rightarrow> env \<Rightarrow> worker \<Rightarrow> outcome \<times> worker" where
  "outer_loop 0 e s = (Out_of_fuel, s)"
| "outer_loop (Suc fuel) e s =
     (case load_running e s of
        (r, s0) \<Rightarrow>
          if \<not> r then (Exited, s0)
          else
            (case openInputDevices e (allfds s0, devices s0, os s0) of
               Inl err \<Rightarrow> (Crashed err, s0)
             | Inr (fds, devs, w') \<Rightarrow>
                 let s1 = s0\<lparr>allfds := fds, devices := devs, os := w'\<rparr> in
                 if devices s1 = []
                 then outer_loop fuel e (s1\<lparr>os := called (SysSleep 5000) (os s1)\<rparr>)
                 else
                   (case getCurrentTime e (s1\<lparr>isListening := True\<rparr>) of
                      (t, s2) \<Rightarrow>
                        (case inner_loop fuel e (s2\<lparr>t_last := t\<rparr>) of
                           (Left_inner, s3) \<Rightarrow> outer_loop fuel e s3
                         | (out, s3) \<Rightarrow> (out, s3)))))"

text \<open>
  \<^verbatim>\<open>run(quitPromise)\<close> on the object \<open>obj\<close>; only the time has been asked, for the
  locals \<^verbatim>\<open>now\<close> and \<^verbatim>\<open>last\<close>. When the loops are left, the worker closes the pool, clears \<^verbatim>\<open>m_isRunning\<close> and sets
  the promise. An exception that leaves \<^verbatim>\<open>run\<close> ends the process.
\<close>

definition worker_init :: "env \<Rightarrow> InputDeviceListener \<Rightarrow> worker" where
  "worker_init e obj =
     \<lparr>this = obj, devices = [], allfds = {}, isListening = False,
      t_now = clock_gettime e 0, t_last = clock_gettime e 0, stores = [],
      os = \<lparr>tick = 1, trace = []\<rparr>\<rparr>"

definition run :: "nat \<Rightarrow> env \<Rightarrow> InputDeviceListener \<Rightarrow> outcome \<times> worker" where
  "run fuel e obj =
     (case outer_loop fuel e (worker_init e obj) of
        (Exited, s) \<Rightarrow>
          (case closeInputDevices (devices s) (os s) of
             (devs, w') \<Rightarrow>
               (Exited,
                s\<lparr>devices := devs, os := w',
                  this := (this s)\<lparr>m_isRunning := False,
                                   promises_set := promises_set (this s) + 1\<rparr>\<rparr>))
      | (out, s) \<Rightarrow> (out, s))"

subsection \<open>Invariants of the worker\<close>

text \<open>
  The clock is monotonic when a later question never gets an earlier time.
\<close>

definition monotonic :: "env \<Rightarrow> bool" where
  "monotonic e = (\<forall>a b. a \<le> b \<longrightarrow> clock_gettime e a \<le> clock_gettime e b)"

text \<open>
  What holds of the values stored so far, \<open>v0\<close> being the value in the object when the
  worker started: they are in non-decreasing order, none is later than the present time,
  each was read from the clock, and the object holds the last of them.
\<close>

definition history_ok :: "env \<Rightarrow> int \<Rightarrow> worker \<Rightarrow> bool" where
  "history_ok e v0 s =
     (sorted (v0 # stores s) \<and>
      (\<forall>x\<in>set (v0 # stores s). x \<le> clock_gettime e (tick (os s))) \<and>
      m_lastOperateTime (this s) = last (v0 # stores s) \<and>
      set (stores s) \<subseteq> range (clock_gettime e))"

text \<open>
  What the loops leave of the object \<open>obj\<close> that the worker was started on: the two
  counters, and the running flag as long as every load of it gives true.
\<close>

definition undisturbed :: "env \<Rightarrow> InputDeviceListener \<Rightarrow> worker \<Rightarrow> bool" where
  "undisturbed e obj s =
     (threads_started (this s) = threads_started obj \<and>
      promises_set (this s) = promises_set obj \<and>
      ((\<forall>t. load_isRunning e t) \<and> m_isRunning obj \<longrightarrow> m_isRunning (this s)))"

subsection \<open>Concrete environments\<close>

text \<open>
  A registry with one keyboard, whose path exists and can be opened; \<^verbatim>\<open>open\<close> returns
  descriptor 3 at first and descriptor 4 later, the clock advances with every question,
  nobody calls \<^verbatim>\<open>stop()\<close>, and the keyboard always has a key event to read.
\<close>

definition keyboard_registry :: string where
  "keyboard_registry =
     ''I: Bus=0011'' @ [CHR 0x0A] @
     ''N: Name='' @ [CHR 0x22] @ ''kbd'' @ [CHR 0x22] @ [CHR 0x0A] @
     ''H: Handlers=sysrq kbd event0'' @ [CHR 0x0A] @
     ''B: EV=120013'' @ [CHR 0x0A, CHR 0x0A]"

definition keyboard :: "int \<Rightarrow> InputDevice" where
  "keyboard fd = \<lparr>m_fd = fd, m_id = ''Bus=0011'', m_name = ''kbd'',
                   m_handler = ''/dev/input/event0''\<rparr>"

definition typing_env :: env where
  "typing_env =
     \<lparr>registry = (\<lambda>t. Some keyboard_registry),
      sys_access = (\<lambda>t path. True),
      sys_open = (\<lambda>t path. if t \<le> 3 then 3 else 4),
      clock_gettime = (\<lambda>t. int t),
      load_isRunning = (\<lambda>t. True),
      sys_select = (\<lambda>t nfds fds. (1, fds)),
      sys_read = (\<lambda>t fd. (24, 1))\<rparr>"


text \<open>
  The same machine with a quiet keyboard and a process that is suspended for 100 seconds
  during its first \<^verbatim>\<open>select\<close>; and the worker as it stands at the top of the next pass of
  the inner loop.
\<close>

definition suspended_env :: env where
  "suspended_env = typing_env\<lparr>clock_gettime := (\<lambda>t. if t < 9 then 100 else 200),
                               sys_select := (\<lambda>t nfds fds. (0, {}))\<rparr>"

definition listening_worker :: worker where
  "listening_worker =
     \<lparr>this = \<lparr>m_isRunning = True, m_lastOperateTime = 0, threads_started = 1,
              promises_set = 0\<rparr>,
      devices = [keyboard 3], allfds = {3}, isListening = True,
      t_now = 100, t_last = 100, stores = [],
      os = \<lparr>tick = 9, trace = [SysOpen ''/dev/input/event0'' 3, SysSelect 4 {3}]\<rparr>\<rparr>"

subsection \<open>The claims' own notions\<close>

text \<open>
  The name line as the specification words it: one leading quote character and one
  trailing quote character are removed when present, and nothing else. It is compared with
  \<open>strip_name\<close>, which is the code.
\<close>

definition spec_strip_one :: "string \<Rightarrow> string" where
  "spec_strip_one name =
     (let name1 = (if name \<noteq> [] \<and> hd name = quote then tl name else name)
      in if name1 \<noteq> [] \<and> last name1 = quote then butlast name1 else name1)"

text \<open>
  The capability bitmask as a number: the hexadecimal value of the text after the
  prefix, so that \<open>bit (ev_value ev) p\<close> says that the bit at position \<open>p\<close> is set.
\<close>

definition hex_digit :: "char \<Rightarrow> nat" where
  "hex_digit c = (case stoi16 c of Inl err \<Rightarrow> 0 | Inr n \<Rightarrow> nat n)"

definition ev_value :: "string \<Rightarrow> nat" where
  "ev_value ev = foldl (\<lambda>v c. 16 * v + hex_digit c) 0 ev"

definition is_hex :: "char \<Rightarrow> bool" where
  "is_hex c = (case stoi16 c of Inl err \<Rightarrow> False | Inr n \<Rightarrow> True)"

text \<open>
  A handlers line names an event handler when one of the tokens that the code takes from
  it begins with \<^verbatim>\<open>event\<close>; the access paths that discovery resolves are the device
  directory followed by such a token.
\<close>

definition has_event_token :: "string \<Rightarrow> bool" where
  "has_event_token rest =
     (\<exists>token\<in>set (getline_all (CHR 0x20) [] rest).
        token \<noteq> [] \<and> str_find token ''event'' 0 = Some 0)"

definition event_path :: "string \<Rightarrow> bool" where
  "event_path handler =
     (\<exists>token. token \<noteq> [] \<and> str_find token ''event'' 0 = Some 0 \<and>
              handler = devicePath @ token)"

text \<open>
  Two registry blocks for a device with an event handler: one whose capability bitmask has
  the key bit only, and one whose bitmask has the bits 0 and 5 only.
\<close>

definition key_block :: string where
  "key_block =
     ''I: Bus=0003'' @ [CHR 0x0A] @
     ''N: Name='' @ [CHR 0x22] @ ''pad'' @ [CHR 0x22] @ [CHR 0x0A] @
     ''H: Handlers=kbd event2'' @ [CHR 0x0A] @
     ''B: EV=2'' @ [CHR 0x0A] @
     ''B: KEY=10000''"

definition misc_block :: string where
  "misc_block =
     ''I: Bus=0019'' @ [CHR 0x0A] @
     ''N: Name='' @ [CHR 0x22] @ ''lid'' @ [CHR 0x22] @ [CHR 0x0A] @
     ''H: Handlers=event1'' @ [CHR 0x0A] @
     ''B: EV=21'' @ [CHR 0x0A] @
     ''B: SW=1''"

section \<open>Theorems\<close>

text \<open>
  C10. For every descriptor constructed from a stable id, a display name and an access
  path, the accessor \<^verbatim>\<open>id()\<close> returns the display name and the accessor \<^verbatim>\<open>name()\<close> returns
  the stable id: each accessor returns the other's field.
\<close>

theorem C10_accessors_swapped:
  "InputDevice_id (InputDevice_ctor ident name handler) = name \<and>
   InputDevice_name (InputDevice_ctor ident name handler) = ident"
  by (simp add: InputDevice_id_def InputDevice_name_def InputDevice_ctor_def)


subsection \<open>The name line\<close>

lemma find_first_not_of_None:
  "find_first_not_of c s = None \<longleftrightarrow> (\<forall>x\<in>set s. x = c)"
  by (induction s) auto

lemma find_first_not_of_Some:
  "find_first_not_of c s = Some k \<Longrightarrow> k = length (takeWhile (\<lambda>x. x = c) s) \<and> k < length s"
  by (induction s arbitrary: k) (auto split: if_splits)

lemma erase_leading:
  "erase s 0 (find_first_not_of c s) = Inr (dropWhile (\<lambda>x. x = c) s)"
proof (cases "find_first_not_of c s")
  case None
  then have "\<forall>x\<in>set s. x = c"
    by (simp add: find_first_not_of_None)
  then have d: "dropWhile (\<lambda>x. x = c) s = []"
    by simp
  show ?thesis
    unfolding None d by (simp add: erase_def)
next
  case (Some k)
  from find_first_not_of_Some [OF Some]
  have "k = length (takeWhile (\<lambda>x. x = c) s)" "k < length s"
    by simp_all
  with Some show ?thesis
    by (simp add: erase_def dropWhile_eq_drop)
qed

lemma erase_trailing:
  "erase s (size_t_succ (find_last_not_of c s)) None = Inr (rev (dropWhile (\<lambda>x. x = c) (rev s)))"
proof (cases "find_first_not_of c (rev s)")
  case None
  then have "\<forall>x\<in>set (rev s). x = c"
    by (simp only: find_first_not_of_None)
  then have d: "dropWhile (\<lambda>x. x = c) (rev s) = []"
    by simp
  show ?thesis
    unfolding find_last_not_of_def None d by (simp add: erase_def size_t_succ_def)
next
  case (Some k)
  from find_first_not_of_Some [OF Some]
  have k: "k = length (takeWhile (\<lambda>x. x = c) (rev s))" "k < length s"
    by simp_all
  have "rev (dropWhile (\<lambda>x. x = c) (rev s)) = rev (drop k (rev s))"
    by (simp add: k(1) dropWhile_eq_drop)
  also have "\<dots> = take (length s - k) s"
    by (simp add: rev_drop)
  finally have r: "rev (dropWhile (\<lambda>x. x = c) (rev s)) = take (length s - k) s" .
  from k(2) have "length s - 1 - k + 1 = length s - k"
    by simp
  with Some r show ?thesis
    by (simp add: erase_def find_last_not_of_def size_t_succ_def)
qed

lemma strip_name_eq:
  "strip_name name =
     Inr (rev (dropWhile (\<lambda>c. c = quote) (rev (dropWhile (\<lambda>c. c = quote) name))))"
  by (cases "name = []") (simp_all add: strip_name_def erase_leading erase_trailing)

text \<open>
  C6, as amended. On the name line, discovery removes every quote character at the start of
  the display name and every quote character at its end (the whole run at either end, not a
  single character), and leaves the rest of the name, quote characters inside it included,
  unchanged.
\<close>

theorem C6_strips_all_quotes:
  "strip_name name =
     Inr (rev (dropWhile (\<lambda>c. c = quote) (rev (dropWhile (\<lambda>c. c = quote) name))))"
  by (rule strip_name_eq)

text \<open>
  C6, as stated, fails on a name that starts and ends with two quote characters: the code
  leaves \<open>a\<close>, and removing one quote character at each end would leave \<open>a\<close> between
  two quote characters.
\<close>

theorem C6_counterexample:
  "strip_name [CHR 0x22, CHR 0x22, CHR ''a'', CHR 0x22, CHR 0x22] \<noteq>
   Inr (spec_strip_one [CHR 0x22, CHR 0x22, CHR ''a'', CHR 0x22, CHR 0x22])"
  by (simp add: strip_name_eq spec_strip_one_def quote_def)

subsection \<open>The registry cannot be opened\<close>

text \<open>
  C7. When the registry cannot be opened, discovery returns without an error and leaves
  the device collection as it was; the pool manager hands it an empty collection, which
  stays empty.
\<close>

theorem C7_registry_unavailable:
  "availableInputDevices None devs = Inr devs \<and> availableInputDevices None [] = Inr []"
  by (simp add: availableInputDevices_def)

subsection \<open>The capability line\<close>

lemma stoi16_range: "stoi16 c = Inr n \<Longrightarrow> 0 \<le> n \<and> n < 16"
  by (auto simp: stoi16_def Let_def split: if_splits)

lemma scan_bits_flagged: "\<exists>i' j'. scan_bits n bs (i, j, True) = (i', j', True)"
  by (induction bs arbitrary: i j) auto

lemma scan_bits_beyond:
  "4 \<le> i + j \<Longrightarrow> 0 \<le> i \<Longrightarrow> i \<le> 9 \<Longrightarrow>
   \<exists>i' j'. scan_bits n bs (i, j, flag) = (i', j', flag) \<and> 4 \<le> i' + j' \<and> 0 \<le> i' \<and> i' \<le> 9"
proof (induction bs arbitrary: i j)
  case Nil
  then show ?case by simp
next
  case (Cons b bs)
  have no: "\<not> (i + j = EV_KEY \<or> i + j = EV_REL \<or> i + j = EV_ABS)"
    using Cons.prems by (simp add: EV_KEY_def EV_REL_def EV_ABS_def)
  show ?case
  proof (cases "i + 1 > 9")
    case True
    have "4 \<le> 0 + (j + 10)" "(0::int) \<le> 0" "(0::int) \<le> 9"
      using Cons.prems True by simp_all
    from Cons.IH [OF this] no True show ?thesis by simp
  next
    case False
    have "4 \<le> (i + 1) + j" "0 \<le> i + 1" "i + 1 \<le> 9"
      using Cons.prems False by simp_all
    from Cons.IH [OF this] no False show ?thesis by simp
  qed
qed

lemma scan_bits_first:
  "scan_bits n bits (0, 0, flag) =
     (if and n 2 \<noteq> 0 then (1, 0, True)
      else if and n 4 \<noteq> 0 then (2, 0, True)
      else if and n 0x88 \<noteq> 0 then (3, 0, True)
      else (4, 0, flag))"
  by (simp add: bits_def EV_KEY_def EV_REL_def EV_ABS_def)

lemma scan_ev_flagged:
  "\<forall>c\<in>set cs. is_hex c \<Longrightarrow> \<exists>i' j'. scan_ev cs (i, j, True) = Inr (i', j', True)"
proof (induction cs arbitrary: i j)
  case Nil
  then show ?case by simp
next
  case (Cons c cs)
  from Cons.prems obtain n where n: "stoi16 c = Inr n"
    by (auto simp: is_hex_def split: sum.splits)
  obtain i' j' where "scan_bits n bits (i, j, True) = (i', j', True)"
    using scan_bits_flagged by blast
  with n Cons show ?case by simp
qed

lemma scan_ev_beyond:
  "\<forall>c\<in>set cs. is_hex c \<Longrightarrow> 4 \<le> i + j \<Longrightarrow> 0 \<le> i \<Longrightarrow> i \<le> 9 \<Longrightarrow>
   \<exists>i' j'. scan_ev cs (i, j, flag) = Inr (i', j', flag)"
proof (induction cs arbitrary: i j)
  case Nil
  then show ?case by simp
next
  case (Cons c cs)
  from Cons.prems obtain n where n: "stoi16 c = Inr n"
    by (auto simp: is_hex_def split: sum.splits)
  from scan_bits_beyond [OF Cons.prems(2-4)]
  obtain i' j' where s: "scan_bits n bits (i, j, flag) = (i', j', flag)"
    "4 \<le> i' + j'" "0 \<le> i'" "i' \<le> 9"
    by blast
  from Cons.prems(1) have "\<forall>c\<in>set cs. is_hex c" by simp
  from Cons.IH [OF this s(2-4)] n s(1) show ?case by simp
qed

lemma event_line_Nil: "event_line [] flag = Inr flag"
  by (simp add: event_line_def)

lemma event_line_snoc:
  assumes "\<forall>c\<in>set (cs @ [c]). is_hex c"
  shows "event_line (cs @ [c]) flag = Inr (flag \<or> and (int (hex_digit c)) 14 \<noteq> 0)"
proof -
  from assms obtain n where n: "stoi16 c = Inr n"
    by (auto simp: is_hex_def split: sum.splits)
  from stoi16_range [OF n] have r: "0 \<le> n" "n < 16"
    by simp_all
  then have "n \<in> {0, 1, 2, 3, 4, 5, 6, 7, 8, 9, 10, 11, 12, 13, 14, 15}"
    by simp arith
  then have b: "(and n 14 \<noteq> 0) = (and n 2 \<noteq> 0 \<or> and n 4 \<noteq> 0 \<or> and n 0x88 \<noteq> 0)"
    by auto
  from n r have d: "int (hex_digit c) = n"
    by (simp add: hex_digit_def)
  from assms have h: "\<forall>c\<in>set (rev cs). is_hex c"
    by simp
  show ?thesis
  proof (cases "and n 14 \<noteq> 0")
    case True
    with b have "\<exists>i. scan_bits n bits (0, 0, flag) = (i, 0, True)"
      unfolding scan_bits_first by (simp split: if_splits)
    then obtain i where f: "scan_bits n bits (0, 0, flag) = (i, 0, True)"
      by blast
    from scan_ev_flagged [OF h] obtain i' j' where
      "scan_ev (rev cs) (i, 0, True) = Inr (i', j', True)"
      by blast
    with n f True d show ?thesis
      by (simp add: event_line_def)
  next
    case False
    with b have f: "scan_bits n bits (0, 0, flag) = (4, 0, flag)"
      by (simp add: scan_bits_first)
    from scan_ev_beyond [OF h, of 4 0 flag] obtain i' j' where
      "scan_ev (rev cs) (4, 0, flag) = Inr (i', j', flag)"
      by auto
    with n f False d show ?thesis
      by (simp add: event_line_def)
  qed
qed

lemma hex_digit_less: "hex_digit c < 16"
  by (auto simp: hex_digit_def dest!: stoi16_range split: sum.splits)

lemma ev_value_snoc: "ev_value (cs @ [c]) = 16 * ev_value cs + hex_digit c"
  by (simp add: ev_value_def)

lemma ev_value_low_bits:
  assumes "p < 4"
  shows "bit (ev_value (cs @ [c])) p = bit (hex_digit c) p"
proof -
  have "take_bit 4 (ev_value (cs @ [c])) = hex_digit c"
    using hex_digit_less [of c] by (simp add: ev_value_snoc take_bit_eq_mod)
  then have "bit (hex_digit c) p = bit (take_bit 4 (ev_value (cs @ [c]))) p"
    by simp
  also have "\<dots> = bit (ev_value (cs @ [c])) p"
    using assms by (simp add: bit_take_bit_iff)
  finally show ?thesis by simp
qed

lemma and_14_bits:
  "(and (int d) 14 \<noteq> 0) = (bit d 1 \<or> bit d 2 \<or> bit d 3)"
proof -
  have e: "(14::int) = or (2 ^ 1) (or (2 ^ 2) (2 ^ 3))"
    by simp
  have "and (int d) 14 = or (and (int d) (2 ^ 1)) (or (and (int d) (2 ^ 2)) (and (int d) (2 ^ 3)))"
    unfolding e by (simp only: bit.conj_disj_distrib)
  then have "and (int d) 14 = 0 \<longleftrightarrow> \<not> bit (int d) 1 \<and> \<not> bit (int d) 2 \<and> \<not> bit (int d) 3"
    by (simp only: or_eq_0_iff and_exp_eq_0_iff_not_bit)
  then show ?thesis
    by (simp add: bit_of_nat_iff_bit)
qed


lemma starts_with_iff: "(str_find s pat 0 = Some 0) = (take (length pat) s = pat)"
  by (cases s) (auto simp: str_find_def)

lemma process_prop_event:
  "process_prop (eventPrefix @ ev) b =
     (case event_line ev (isInputDevice b) of
        Inl err \<Rightarrow> Inl err
      | Inr flag \<Rightarrow> Inr (b\<lparr>isInputDevice := flag\<rparr>))"
  by (simp add: process_prop_def starts_with_iff substr_from_def
      eventPrefix_def idPrefix_def namePrefix_def handlerPrefix_def)

lemma process_prop_other:
  assumes "str_find prop eventPrefix 0 \<noteq> Some 0"
  shows "\<exists>b'. process_prop prop b = Inr b' \<and> isInputDevice b' = isInputDevice b"
  using assms by (simp add: process_prop_def strip_name_eq)

lemma process_props_other:
  "\<forall>prop\<in>set props. str_find prop eventPrefix 0 \<noteq> Some 0 \<Longrightarrow>
   \<exists>b'. process_props props b = Inr b' \<and> isInputDevice b' = isInputDevice b"
proof (induction props arbitrary: b)
  case Nil
  then show ?case by simp
next
  case (Cons line props)
  from Cons.prems have "str_find line eventPrefix 0 \<noteq> Some 0"
    by simp
  from process_prop_other [OF this] obtain b1 where
    b1: "process_prop line b = Inr b1" "isInputDevice b1 = isInputDevice b"
    by blast
  from Cons.prems have "\<forall>prop\<in>set props. str_find prop eventPrefix 0 \<noteq> Some 0"
    by simp
  from Cons.IH [OF this, of b1] b1 show ?case
    by simp
qed

lemma process_props_append:
  "process_props (xs @ ys) b =
     (case process_props xs b of Inl err \<Rightarrow> Inl err | Inr b' \<Rightarrow> process_props ys b')"
  by (induction xs arbitrary: b) (auto split: sum.splits)

lemma event_line_hex:
  assumes "\<forall>c\<in>set ev. is_hex c"
  shows "event_line ev flag =
     Inr (flag \<or> bit (ev_value ev) 1 \<or> bit (ev_value ev) 2 \<or> bit (ev_value ev) 3)"
proof (cases ev rule: rev_cases)
  case Nil
  then show ?thesis
    by (simp add: event_line_Nil ev_value_def)
next
  case (snoc cs c)
  with assms have "\<forall>x\<in>set (cs @ [c]). is_hex x"
    by simp
  from event_line_snoc [OF this] show ?thesis
    unfolding snoc by (simp add: and_14_bits ev_value_low_bits)
qed

lemma process_props_block:
  assumes "\<forall>c\<in>set ev. is_hex c"
    and "\<forall>prop\<in>set (pre @ post). str_find prop eventPrefix 0 \<noteq> Some 0"
  shows "\<exists>b. process_props (pre @ [eventPrefix @ ev] @ post) block_init = Inr b \<and>
     isInputDevice b = (bit (ev_value ev) 1 \<or> bit (ev_value ev) 2 \<or> bit (ev_value ev) 3)"
proof -
  from assms(2) have "\<forall>prop\<in>set pre. str_find prop eventPrefix 0 \<noteq> Some 0"
    by simp
  from process_props_other [OF this, of block_init] obtain b1 where
    b1: "process_props pre block_init = Inr b1" "\<not> isInputDevice b1"
    by (auto simp: block_init_def)
  define b2 where "b2 = b1\<lparr>isInputDevice :=
    bit (ev_value ev) 1 \<or> bit (ev_value ev) 2 \<or> bit (ev_value ev) 3\<rparr>"
  have b2: "process_prop (eventPrefix @ ev) b1 = Inr b2"
    using b1(2) by (simp add: process_prop_event event_line_hex [OF assms(1)] b2_def)
  from assms(2) have "\<forall>prop\<in>set post. str_find prop eventPrefix 0 \<noteq> Some 0"
    by simp
  from process_props_other [OF this, of b2] obtain b3 where
    b3: "process_props post b2 = Inr b3" "isInputDevice b3 = isInputDevice b2"
    by blast
  have "process_props (pre @ [eventPrefix @ ev] @ post) block_init = Inr b3"
    by (simp add: process_props_append b1(1) b2 b3(1))
  with b3(2) show ?thesis
    by (simp add: b2_def)
qed

lemma find_satisfies: "List.find P xs = Some x \<Longrightarrow> P x"
  by (induction xs) (auto split: if_splits)

lemma find_exists: "\<exists>x\<in>set xs. P x \<Longrightarrow> \<exists>y. List.find P xs = Some y"
  by (induction xs) auto

lemma pick_handler_event:
  assumes "has_event_token rest"
  shows "event_path (pick_handler rest handler)"
proof -
  let ?P = "\<lambda>token. token \<noteq> [] \<and> str_find token ''event'' 0 = Some 0"
  from assms have "\<exists>token\<in>set (getline_all (CHR 0x20) [] rest). ?P token"
    by (simp add: has_event_token_def)
  from find_exists [OF this] obtain token where
    f: "List.find ?P (getline_all (CHR 0x20) [] rest) = Some token"
    by blast
  from find_satisfies [OF f] have "?P token" .
  with f show ?thesis
    by (auto simp: pick_handler_def event_path_def)
qed

lemma pick_handler_kept:
  assumes "event_path handler"
  shows "event_path (pick_handler rest handler)"
proof (cases "List.find (\<lambda>token. token \<noteq> [] \<and> str_find token ''event'' 0 = Some 0)
    (getline_all (CHR 0x20) [] rest)")
  case None
  with assms show ?thesis
    by (simp add: pick_handler_def)
next
  case (Some token)
  from find_satisfies [OF Some] have "token \<noteq> [] \<and> str_find token ''event'' 0 = Some 0" .
  with Some show ?thesis
    by (auto simp: pick_handler_def event_path_def)
qed

lemma process_prop_handler_line:
  "process_prop (handlerPrefix @ rest) b =
     Inr (b\<lparr>dev_handler := pick_handler rest (dev_handler b)\<rparr>)"
  by (simp add: process_prop_def starts_with_iff substr_from_def
      idPrefix_def namePrefix_def handlerPrefix_def)

lemma process_prop_event_path:
  assumes "process_prop line b = Inr b'" and "event_path (dev_handler b)"
  shows "event_path (dev_handler b')"
  using assms
  by (auto simp: process_prop_def pick_handler_kept split: if_splits sum.splits)

lemma process_props_event_path:
  "process_props props b = Inr b' \<Longrightarrow>
   event_path (dev_handler b) \<or>
     (\<exists>rest. handlerPrefix @ rest \<in> set props \<and> has_event_token rest) \<Longrightarrow>
   event_path (dev_handler b')"
proof (induction props arbitrary: b)
  case Nil
  then show ?case by simp
next
  case (Cons line props)
  from Cons.prems(1) obtain b1 where
    b1: "process_prop line b = Inr b1" "process_props props b1 = Inr b'"
    by (auto split: sum.splits)
  consider (already) "event_path (dev_handler b)"
    | (here) rest where "line = handlerPrefix @ rest" "has_event_token rest"
    | (later) "\<exists>rest. handlerPrefix @ rest \<in> set props \<and> has_event_token rest"
    using Cons.prems(2) by auto
  then show ?case
  proof cases
    case already
    from process_prop_event_path [OF b1(1) this] have "event_path (dev_handler b1)" .
    then show ?thesis
      using Cons.IH [OF b1(2)] by blast
  next
    case here
    with b1(1) have "b1 = b\<lparr>dev_handler := pick_handler rest (dev_handler b)\<rparr>"
      by (simp add: process_prop_handler_line)
    with pick_handler_event [OF here(2)] have "event_path (dev_handler b1)"
      by simp
    then show ?thesis
      using Cons.IH [OF b1(2)] by blast
  next
    case later
    then show ?thesis
      using Cons.IH [OF b1(2)] by blast
  qed
qed

lemma split_one_block:
  assumes "info \<noteq> []" and "str_find (info @ sep) sep 0 = Some (length info)"
  shows "split_blocks (info @ sep) 0 = [info]"
proof -
  have a: "str_find (info @ sep) sep (length info + length sep) = None"
    by (simp add: str_find_def sep_def)
  have b: "split_blocks (info @ sep) (length info + length sep) = []"
    by (subst split_blocks.simps) (simp add: a del: split_blocks.simps)
  show ?thesis
    by (subst split_blocks.simps) (simp add: assms substr_def b del: split_blocks.simps)
qed

lemma one_block_registry:
  assumes "info \<noteq> []" and "str_find (info @ sep) sep 0 = Some (length info)"
  shows "availableInputDevices (Some (info @ sep)) devs = scan_block info devs"
  by (simp add: availableInputDevices_def split_one_block [OF assms] del: split_blocks.simps
      split: sum.splits)

text \<open>
  C4. Take a registry of one block that has a handlers line naming an event handler and one
  capability line, whose text \<open>ev\<close> is made of hexadecimal digits (fewer than \<open>2^29\<close> of
  them, so that the C counters do not overflow). If the only bit set in the bitmask is the
  one at the position of the key class, discovery yields a descriptor for the block, with
  the access path of an event handler; if no bit is set at the positions of the key,
  relative-motion and absolute-motion classes, discovery yields no descriptor for it.
\<close>

theorem C4_capability_classification:
  assumes "\<forall>c\<in>set ev. is_hex c"
    and "length ev < 2 ^ 29"
    and "block_props info = pre @ [eventPrefix @ ev] @ post"
    and "\<forall>prop\<in>set (pre @ post). str_find prop eventPrefix 0 \<noteq> Some 0"
    and "handlerPrefix @ rest \<in> set (pre @ post)"
    and "has_event_token rest"
    and "str_find (info @ sep) sep 0 = Some (length info)"
  shows "availableInputDevices (Some (info @ sep)) devs = scan_block info devs \<and>
         (ev_value ev = 2 ^ nat EV_KEY \<longrightarrow>
            (\<exists>ident name token.
               token \<noteq> [] \<and> str_find token ''event'' 0 = Some 0 \<and>
               scan_block info devs =
                 Inr (devs @ [InputDevice_ctor ident name (devicePath @ token)]))) \<and>
         (\<not> bit (ev_value ev) (nat EV_KEY) \<and> \<not> bit (ev_value ev) (nat EV_REL) \<and>
          \<not> bit (ev_value ev) (nat EV_ABS) \<longrightarrow>
            scan_block info devs = Inr devs)"
proof -
  from process_props_block [OF assms(1) assms(4)] obtain b where
    b: "process_props (pre @ [eventPrefix @ ev] @ post) block_init = Inr b"
    "isInputDevice b = (bit (ev_value ev) 1 \<or> bit (ev_value ev) 2 \<or> bit (ev_value ev) 3)"
    by blast
  from assms(5,6) have
    "\<exists>rest. handlerPrefix @ rest \<in> set (pre @ [eventPrefix @ ev] @ post) \<and> has_event_token rest"
    by auto
  with process_props_event_path [OF b(1)] have "event_path (dev_handler b)"
    by blast
  then obtain token where
    t: "token \<noteq> []" "str_find token ''event'' 0 = Some 0" "dev_handler b = devicePath @ token"
    by (auto simp: event_path_def)
  from assms(3) have ne: "block_props info \<noteq> []"
    by simp
  then have "info \<noteq> []"
    by (auto simp: block_props_def)
  from one_block_registry [OF this assms(7)]
  have r: "availableInputDevices (Some (info @ sep)) devs = scan_block info devs" .
  from ne b(1) have e: "scan_block info devs = Inr (emit b devs)"
    by (simp add: scan_block_def assms(3))
  have k: "nat EV_KEY = 1" "nat EV_REL = 2" "nat EV_ABS = 3"
    by (simp_all add: EV_KEY_def EV_REL_def EV_ABS_def)
  have two: "bit (2::nat) 1"
    by (simp add: bit_iff_odd)
  have pos: "\<exists>ident name token.
      token \<noteq> [] \<and> str_find token ''event'' 0 = Some 0 \<and>
      scan_block info devs = Inr (devs @ [InputDevice_ctor ident name (devicePath @ token)])"
    if "ev_value ev = 2 ^ nat EV_KEY"
  proof -
    from that two have "isInputDevice b"
      unfolding b(2) k by simp
    with t(3) have "emit b devs =
        devs @ [InputDevice_ctor (dev_id b) (dev_name b) (devicePath @ token)]"
      by (simp add: emit_def devicePath_def)
    with e t(1,2) show ?thesis
      by auto
  qed
  have neg: "scan_block info devs = Inr devs"
    if "\<not> bit (ev_value ev) (nat EV_KEY) \<and> \<not> bit (ev_value ev) (nat EV_REL) \<and>
        \<not> bit (ev_value ev) (nat EV_ABS)"
  proof -
    from that have "\<not> isInputDevice b"
      by (simp add: b(2) k)
    with e show ?thesis
      by (simp add: emit_def)
  qed
  from r pos neg show ?thesis
    by blast
qed

theorem C4_witness:
  "availableInputDevices (Some (key_block @ sep)) [] =
     Inr [InputDevice_ctor ''Bus=0003'' ''pad'' ''/dev/input/event2''] \<and>
   availableInputDevices (Some (misc_block @ sep)) [] = Inr []"
proof -
  have h1: "\<forall>c\<in>set ''2''. is_hex c" and h2: "\<forall>c\<in>set ''21''. is_hex c"
    by (simp_all add: is_hex_def stoi16_def)
  have l1: "length ''2'' < 2 ^ 29" and l2: "length ''21'' < 2 ^ 29"
    by simp_all
  have p1: "block_props key_block =
      [''I: Bus=0003'', ''N: Name='' @ [CHR 0x22] @ ''pad'' @ [CHR 0x22],
       ''H: Handlers=kbd event2''] @ [eventPrefix @ ''2''] @ [''B: KEY=10000'']"
    by code_simp
  have p2: "block_props misc_block =
      [''I: Bus=0019'', ''N: Name='' @ [CHR 0x22] @ ''lid'' @ [CHR 0x22],
       ''H: Handlers=event1''] @ [eventPrefix @ ''21''] @ [''B: SW=1'']"
    by code_simp
  have o1: "\<forall>prop\<in>set ([''I: Bus=0003'', ''N: Name='' @ [CHR 0x22] @ ''pad'' @ [CHR 0x22],
       ''H: Handlers=kbd event2''] @ [''B: KEY=10000'']). str_find prop eventPrefix 0 \<noteq> Some 0"
    by (simp add: starts_with_iff eventPrefix_def)
  have o2: "\<forall>prop\<in>set ([''I: Bus=0019'', ''N: Name='' @ [CHR 0x22] @ ''lid'' @ [CHR 0x22],
       ''H: Handlers=event1''] @ [''B: SW=1'']). str_find prop eventPrefix 0 \<noteq> Some 0"
    by (simp add: starts_with_iff eventPrefix_def)
  have m1: "handlerPrefix @ ''kbd event2'' \<in> set ([''I: Bus=0003'',
       ''N: Name='' @ [CHR 0x22] @ ''pad'' @ [CHR 0x22], ''H: Handlers=kbd event2''] @
       [''B: KEY=10000''])"
    by (simp add: handlerPrefix_def)
  have m2: "handlerPrefix @ ''event1'' \<in> set ([''I: Bus=0019'',
       ''N: Name='' @ [CHR 0x22] @ ''lid'' @ [CHR 0x22], ''H: Handlers=event1''] @
       [''B: SW=1''])"
    by (simp add: handlerPrefix_def)
  have t1: "has_event_token ''kbd event2''" and t2: "has_event_token ''event1''"
    by (simp_all add: has_event_token_def starts_with_iff)
  have s1: "str_find (key_block @ sep) sep 0 = Some (length key_block)"
    by code_simp
  have s2: "str_find (misc_block @ sep) sep 0 = Some (length misc_block)"
    by code_simp
  have v1: "ev_value ''2'' = 2 ^ nat EV_KEY"
    by (simp add: ev_value_def hex_digit_def stoi16_def EV_KEY_def)
  have v2: "\<not> bit (ev_value ''21'') (nat EV_KEY) \<and> \<not> bit (ev_value ''21'') (nat EV_REL) \<and>
      \<not> bit (ev_value ''21'') (nat EV_ABS)"
    by (simp add: ev_value_def hex_digit_def stoi16_def EV_KEY_def EV_REL_def EV_ABS_def)
  have c1: "scan_block key_block [] =
      Inr [InputDevice_ctor ''Bus=0003'' ''pad'' ''/dev/input/event2'']"
    by code_simp
  from C4_capability_classification [OF h1 l1 p1 o1 m1 t1 s1, of "[]"] v1 c1
    C4_capability_classification [OF h2 l2 p2 o2 m2 t2 s2, of "[]"] v2
  show ?thesis
    by simp
qed

subsection \<open>Which blocks give a descriptor\<close>





subsection \<open>The staleness test of the inner loop\<close>

lemma stale_needs_clock_going_back: "stale s \<Longrightarrow> t_now s < t_last s"
  by (simp add: stale_def)

text \<open>
  C1. The code does not meet this claim. The worker below has been started on a fresh object and
  has made one pass of the inner loop at time 100; the next pass reads time 200, so that
  100 seconds have elapsed since the previous pass. The pass does not break out of the
  loop: it sets \<^verbatim>\<open>last\<close> and goes on to wait in \<^verbatim>\<open>select\<close>. The test compares
  \<^verbatim>\<open>last - now\<close> with 5, which a clock that does not go back never exceeds.
\<close>

theorem C1_stale_pass_goes_on_to_select:
  "snd (load_running suspended_env
          (snd (run 2 suspended_env (snd (start InputDeviceListener_ctor))))) =
     listening_worker \<and>
   clock_gettime suspended_env (tick (os listening_worker)) - t_last listening_worker = 100 \<and>
   inner_body suspended_env listening_worker =
     (Continue,
      listening_worker\<lparr>t_now := 200, t_last := 200,
        os := \<lparr>tick = 11,
               trace = [SysOpen ''/dev/input/event0'' 3, SysSelect 4 {3}, SysSelect 4 {3}]\<rparr>\<rparr>)"
proof -
  have "snd (load_running suspended_env
          (snd (run 2 suspended_env (snd (start InputDeviceListener_ctor))))) =
     listening_worker"
    by code_simp
  moreover have "inner_body suspended_env listening_worker =
     (Continue,
      listening_worker\<lparr>t_now := 200, t_last := 200,
        os := \<lparr>tick = 11,
               trace = [SysOpen ''/dev/input/event0'' 3, SysSelect 4 {3}, SysSelect 4 {3}]\<rparr>\<rparr>)"
    by (simp add: inner_body_def getCurrentTime_def suspended_env_def typing_env_def
        listening_worker_def asked_def called_def stale_def keyboard_def InputDevice_int_def)
  ultimately show ?thesis
    by (simp add: suspended_env_def listening_worker_def)
qed

subsection \<open>Reconciliation\<close>

lemma disc: "availableInputDevices (Some keyboard_registry) [] = Inr [keyboard (- 1)]"
  by code_simp

text \<open>
  \<^verbatim>\<open>isOpened()\<close> answers true only for a descriptor that has no handle, so a previous
  descriptor that is open is never the one that is kept: the discovered one is opened.
\<close>

lemma isOpened_only_without_handle:
  "fst (InputDevice_isOpened e d w) \<Longrightarrow> m_fd d = - 1"
  by (simp add: InputDevice_isOpened_def split: if_splits)

lemma reconcile_one_open_match:
  assumes "find_if (\<lambda>dev. InputDevice_eq it dev) (p_devices p) = Some k"
    and "m_fd (p_devices p ! k) \<noteq> - 1"
  shows "reconcile_one e it p = open_discovered e it (p\<lparr>p_world := asked (p_world p)\<rparr>)"
  using assms by (simp add: reconcile_one_def InputDevice_isOpened_def Let_def)

text \<open>
  C2. The code does not meet this claim. The previous pool holds the keyboard, open on
  descriptor 3; its path exists and discovery finds it again. Reconciliation does not keep
  the previous descriptor: the discovered descriptor is opened on descriptor 4 and
  descriptor 3 is closed. When the previous pool holds the keyboard with the handle \<open>-1\<close>
  (closed after a failed read), \<^verbatim>\<open>isOpened()\<close> answers true and the closed descriptor
  goes to \<^verbatim>\<open>FD_SET\<close>, which is undefined for \<open>-1\<close>.
\<close>

theorem C2_open_descriptor_not_kept:
  "sys_access typing_env 5 (m_handler (keyboard 3)) \<and>
   openInputDevices typing_env ({3}, [keyboard 3], \<lparr>tick = 4, trace = []\<rparr>) =
     Inr ({4}, [keyboard 4],
          \<lparr>tick = 8, trace = [SysOpen ''/dev/input/event0'' 4, SysClose 3]\<rparr>) \<and>
   openInputDevices typing_env ({}, [keyboard (- 1)], \<lparr>tick = 4, trace = []\<rparr>) =
     Inl fd_set_undefined"
  by (simp add: openInputDevices_def typing_env_def disc reconcile_one_def keyboard_def
      InputDevice_eq_def InputDevice_isOpened_def open_discovered_def InputDevice_open_def
      called_def asked_def FD_SET_def FD_SETSIZE_def InputDevice_int_def InputDevice_close_def)

text \<open>
  C3. The code does not meet this claim. Two rebuild cycles in a row find the same keyboard. The
  first opens it on descriptor 3; the second opens it again, on descriptor 4, and closes
  descriptor 3.
\<close>

theorem C3_second_cycle_reopens:
  "openInputDevices typing_env ({}, [], \<lparr>tick = 2, trace = []\<rparr>) =
     Inr ({3}, [keyboard 3], \<lparr>tick = 4, trace = [SysOpen ''/dev/input/event0'' 3]\<rparr>) \<and>
   openInputDevices typing_env
       ({3}, [keyboard 3], \<lparr>tick = 4, trace = [SysOpen ''/dev/input/event0'' 3]\<rparr>) =
     Inr ({4}, [keyboard 4],
          \<lparr>tick = 8,
            trace = [SysOpen ''/dev/input/event0'' 3, SysOpen ''/dev/input/event0'' 4,
                     SysClose 3]\<rparr>)"
  by (simp add: openInputDevices_def typing_env_def disc reconcile_one_def keyboard_def
      InputDevice_eq_def InputDevice_isOpened_def open_discovered_def InputDevice_open_def
      called_def asked_def FD_SET_def FD_SETSIZE_def InputDevice_int_def InputDevice_close_def)

subsection \<open>The stored times never decrease\<close>

lemma history_ok_later:
  assumes "monotonic e" "history_ok e v0 s" "stores s' = stores s"
    "m_lastOperateTime (this s') = m_lastOperateTime (this s)" "tick (os s) \<le> tick (os s')"
  shows "history_ok e v0 s'"
proof -
  from assms(1,5) have "clock_gettime e (tick (os s)) \<le> clock_gettime e (tick (os s'))"
    by (simp add: monotonic_def)
  with assms(2-4) show ?thesis
    unfolding history_ok_def by fastforce
qed

lemma history_ok_store:
  assumes "monotonic e" "history_ok e v0 s" "getCurrentTime e s = (t, s2)"
  shows "history_ok e v0 (store_lastOperateTime t s2)"
proof -
  from assms(3) have t: "t = clock_gettime e (tick (os s))" and
    s2: "stores s2 = stores s" "tick (os s2) = Suc (tick (os s))"
    by (auto simp: getCurrentTime_def asked_def)
  from assms(1) have m: "clock_gettime e (tick (os s)) \<le> clock_gettime e (Suc (tick (os s)))"
    by (simp add: monotonic_def)
  from assms(2) have b: "\<forall>x\<in>set (v0 # stores s). x \<le> t" and so: "sorted (v0 # stores s)"
    by (simp_all add: history_ok_def t)
  from so b have "sorted ((v0 # stores s) @ [t])"
    by (simp only: sorted_append) simp
  moreover from b m have "\<forall>x\<in>set ((v0 # stores s) @ [t]). x \<le> clock_gettime e (Suc (tick (os s)))"
    by (auto simp: t)
  moreover from assms(2) have "set (stores s) \<subseteq> range (clock_gettime e)"
    by (simp add: history_ok_def)
  moreover have "t \<in> range (clock_gettime e)"
    by (simp add: t)
  ultimately show ?thesis
    by (simp add: history_ok_def store_lastOperateTime_def s2)
qed

lemma close_tick: "InputDevice_close d w = (d', w') \<Longrightarrow> tick w \<le> tick w'"
  by (auto simp: InputDevice_close_def called_def split: if_splits)

lemma read_ready_history:
  assumes "monotonic e"
  shows "history_ok e v0 s \<Longrightarrow> history_ok e v0 (read_ready e rfds seen rest s)"
proof (induction rest arbitrary: seen s)
  case Nil
  then show ?case by simp
next
  case (Cons it rest)
  show ?case
  proof (cases "FD_ISSET (InputDevice_int it) rfds")
    case False
    with Cons show ?thesis by simp
  next
    case True
    obtain n ty where r: "sys_read e (tick (os s)) (InputDevice_int it) = (n, ty)"
      by (cases "sys_read e (tick (os s)) (InputDevice_int it)")
    define s1 where "s1 = s\<lparr>os := called (SysRead (InputDevice_int it)) (os s)\<rparr>"
    have h1: "history_ok e v0 s1"
      by (rule history_ok_later [OF assms Cons.prems]) (simp_all add: s1_def called_def)
    consider (full_input) "n = sizeof_event" "int ty = EV_KEY \<or> int ty = EV_REL \<or> int ty = EV_ABS"
      | (full_other) "n = sizeof_event" "\<not> (int ty = EV_KEY \<or> int ty = EV_REL \<or> int ty = EV_ABS)"
      | (gone) "n \<noteq> sizeof_event" "n \<le> 0"
      | (short) "n \<noteq> sizeof_event" "\<not> n \<le> 0"
      by blast
    then show ?thesis
    proof cases
      case full_input
      obtain t s2 where g: "getCurrentTime e s1 = (t, s2)"
        by (cases "getCurrentTime e s1")
      from history_ok_store [OF assms h1 g]
      have "history_ok e v0 (read_ready e rfds (seen @ [it]) rest (store_lastOperateTime t s2))"
        by (rule Cons.IH)
      with True r full_input g show ?thesis
        by (simp add: s1_def)
    next
      case full_other
      from h1 have "history_ok e v0 (read_ready e rfds (seen @ [it]) rest s1)"
        by (rule Cons.IH)
      with True r full_other show ?thesis
        by (simp add: s1_def)
    next
      case gone
      obtain it' w' where c: "InputDevice_close it (os s1) = (it', w')"
        by (cases "InputDevice_close it (os s1)")
      have "history_ok e v0 (s1\<lparr>allfds := FD_CLR (InputDevice_int it) (allfds s1),
          devices := seen @ [it'] @ rest, isListening := False, os := w'\<rparr>)"
        by (rule history_ok_later [OF assms h1]) (simp_all add: close_tick [OF c])
      with True r gone c show ?thesis
        by (simp add: s1_def)
    next
      case short
      from h1 have "history_ok e v0 (read_ready e rfds (seen @ [it]) rest s1)"
        by (rule Cons.IH)
      with True r short show ?thesis
        by (simp add: s1_def)
    qed
  qed
qed


lemma open_tick: "InputDevice_open e d w = (ok, d', w') \<Longrightarrow> tick w \<le> tick w'"
  by (auto simp: InputDevice_open_def Let_def called_def split: if_splits)

lemma isOpened_tick: "InputDevice_isOpened e d w = (b, w') \<Longrightarrow> tick w \<le> tick w'"
  by (auto simp: InputDevice_isOpened_def asked_def split: if_splits)

lemma open_discovered_tick:
  "open_discovered e it p = Inr p' \<Longrightarrow> tick (p_world p) \<le> tick (p_world p')"
  by (auto simp: open_discovered_def split: prod.splits if_splits sum.splits dest: open_tick)

lemma reconcile_one_tick:
  assumes "reconcile_one e it p = Inr p'"
  shows "tick (p_world p) \<le> tick (p_world p')"
proof (cases "find_if (\<lambda>dev. InputDevice_eq it dev) (p_devices p)")
  case None
  with assms show ?thesis
    by (simp add: reconcile_one_def open_discovered_tick)
next
  case (Some k)
  obtain b w' where i: "InputDevice_isOpened e (p_devices p ! k) (p_world p) = (b, w')"
    by (cases "InputDevice_isOpened e (p_devices p ! k) (p_world p)")
  from isOpened_tick [OF i] have t: "tick (p_world p) \<le> tick w'" .
  show ?thesis
  proof (cases b)
    case True
    with assms Some i t show ?thesis
      by (auto simp: reconcile_one_def Let_def split: sum.splits)
  next
    case False
    with assms Some i have "open_discovered e it (p\<lparr>p_world := w'\<rparr>) = Inr p'"
      by (simp add: reconcile_one_def)
    from open_discovered_tick [OF this] t show ?thesis
      by simp
  qed
qed

lemma reconcile_all_tick:
  "reconcile_all e its p = Inr p' \<Longrightarrow> tick (p_world p) \<le> tick (p_world p')"
proof (induction its arbitrary: p)
  case Nil
  then show ?case by simp
next
  case (Cons it its)
  from Cons.prems obtain p1 where
    p1: "reconcile_one e it p = Inr p1" "reconcile_all e its p1 = Inr p'"
    by (auto split: sum.splits)
  from reconcile_one_tick [OF p1(1)] Cons.IH [OF p1(2)] show ?case
    by simp
qed

lemma destroy_all_tick: "tick w \<le> tick (destroy_all ds w)"
proof (induction ds arbitrary: w)
  case Nil
  then show ?case by simp
next
  case (Cons d ds)
  have "tick w \<le> tick (snd (InputDevice_close d w))"
    by (cases "InputDevice_close d w") (simp add: close_tick)
  also have "\<dots> \<le> tick (destroy_all ds (snd (InputDevice_close d w)))"
    by (rule Cons.IH)
  finally show ?case by simp
qed

lemma openInputDevices_tick:
  assumes "openInputDevices e (fds, devs, w) = Inr (fds', devs', w')"
  shows "tick w \<le> tick w'"
proof -
  from assms obtain allDevices p where
    p: "reconcile_all e allDevices
          \<lparr>p_allfds = {}, p_devices = devs, p_openedDevices = [], p_world = asked w\<rparr> = Inr p"
    and w': "w' = destroy_all (p_devices p) (p_world p)"
    by (auto simp: openInputDevices_def split: sum.splits)
  from reconcile_all_tick [OF p] have "tick (asked w) \<le> tick (p_world p)"
    by simp
  also have "\<dots> \<le> tick w'"
    unfolding w' by (rule destroy_all_tick)
  finally show ?thesis
    by (simp add: asked_def)
qed

lemma closeInputDevices_tick:
  "closeInputDevices ds w = (ds', w') \<Longrightarrow> tick w \<le> tick w'"
proof (induction ds arbitrary: w ds' w')
  case Nil
  then show ?case by simp
next
  case (Cons d ds)
  obtain d1 w1 where c: "InputDevice_close d w = (d1, w1)"
    by (cases "InputDevice_close d w")
  obtain ds2 w2 where r: "closeInputDevices ds w1 = (ds2, w2)"
    by (cases "closeInputDevices ds w1")
  from Cons.prems c r have "w' = w2"
    by simp
  with close_tick [OF c] Cons.IH [OF r] show ?case
    by simp
qed

lemma load_running_history:
  assumes "monotonic e" "history_ok e v0 s" "load_running e s = (r, s0)"
  shows "history_ok e v0 s0"
proof (rule history_ok_later [OF assms(1,2)])
  from assms(3) show "stores s0 = stores s"
    "m_lastOperateTime (this s0) = m_lastOperateTime (this s)"
    "tick (os s) \<le> tick (os s0)"
    by (auto simp: load_running_def Let_def asked_def)
qed

lemma getCurrentTime_history:
  assumes "monotonic e" "history_ok e v0 s" "getCurrentTime e s = (t, s1)"
  shows "history_ok e v0 s1"
proof (rule history_ok_later [OF assms(1,2)])
  from assms(3) show "stores s1 = stores s"
    "m_lastOperateTime (this s1) = m_lastOperateTime (this s)"
    "tick (os s) \<le> tick (os s1)"
    by (auto simp: getCurrentTime_def asked_def)
qed

lemma history_ok_locals:
  "history_ok e v0 (s\<lparr>t_now := a\<rparr>) = history_ok e v0 s"
  "history_ok e v0 (s\<lparr>t_last := a\<rparr>) = history_ok e v0 s"
  "history_ok e v0 (s\<lparr>isListening := b\<rparr>) = history_ok e v0 s"
  by (simp_all add: history_ok_def)

lemma history_ok_called:
  assumes "monotonic e" "history_ok e v0 s"
  shows "history_ok e v0 (s\<lparr>os := called c (os s)\<rparr>)"
  by (rule history_ok_later [OF assms]) (simp_all add: called_def)

lemma inner_body_history:
  assumes "monotonic e" "history_ok e v0 s" "inner_body e s = (f, s')"
  shows "history_ok e v0 s'"
proof -
  obtain t s1 where g: "getCurrentTime e s = (t, s1)"
    by (cases "getCurrentTime e s")
  define s3 where "s3 = s1\<lparr>t_now := t, t_last := t\<rparr>"
  have h2: "history_ok e v0 (s1\<lparr>t_now := t\<rparr>)"
    using getCurrentTime_history [OF assms(1,2) g] by (simp add: history_ok_locals)
  then have h3: "history_ok e v0 s3"
    by (simp add: s3_def history_ok_locals)
  obtain ret rfds where
    sel: "sys_select e (tick (os s3)) (InputDevice_int (last (devices s3)) + 1) (allfds s3) = (ret, rfds)"
    by (cases "sys_select e (tick (os s3)) (InputDevice_int (last (devices s3)) + 1) (allfds s3)")
  define s4 where "s4 = s3\<lparr>os := called (SysSelect (InputDevice_int (last (devices s3)) + 1)
    (allfds s3)) (os s3)\<rparr>"
  have h4: "history_ok e v0 s4"
    unfolding s4_def by (rule history_ok_called [OF assms(1) h3])
  have h5: "history_ok e v0 (read_ready e rfds [] (devices s4) s4)"
    by (rule read_ready_history [OF assms(1) h4])
  have h6: "history_ok e v0 ((read_ready e rfds [] (devices s4) s4)
      \<lparr>os := called (SysSleep 1) (os (read_ready e rfds [] (devices s4) s4))\<rparr>)"
    by (rule history_ok_called [OF assms(1) h5])
  from assms(3) g sel have
    "s' = s1\<lparr>t_now := t\<rparr> \<or> s' = s3 \<or> s' = s4 \<or>
     s' = (read_ready e rfds [] (devices s4) s4)
       \<lparr>os := called (SysSleep 1) (os (read_ready e rfds [] (devices s4) s4))\<rparr>"
    by (auto simp: inner_body_def Let_def s3_def s4_def split: if_splits)
  with h2 h3 h4 h6 show ?thesis
    by blast
qed

lemma inner_loop_history:
  assumes "monotonic e"
  shows "history_ok e v0 s \<Longrightarrow> inner_loop fuel e s = (out, s') \<Longrightarrow> history_ok e v0 s'"
proof (induction fuel arbitrary: s)
  case 0
  then show ?case by simp
next
  case (Suc fuel)
  obtain r s0 where l: "load_running e s = (r, s0)"
    by (cases "load_running e s")
  from load_running_history [OF assms Suc.prems(1) l] have h0: "history_ok e v0 s0" .
  show ?case
  proof (cases "r \<and> isListening s0")
    case False
    with Suc.prems(2) l h0 show ?thesis
      by auto
  next
    case True
    obtain f s1 where b: "inner_body e s0 = (f, s1)"
      by (cases "inner_body e s0")
    from inner_body_history [OF assms h0 b] have h1: "history_ok e v0 s1" .
    show ?thesis
    proof (cases f)
      case Break
      with Suc.prems(2) l True b h1 show ?thesis by simp
    next
      case Continue
      with Suc.prems(2) l True b have "inner_loop fuel e s1 = (out, s')"
        by simp
      from Suc.IH [OF h1 this] show ?thesis .
    next
      case Undefined
      with Suc.prems(2) l True b h1 show ?thesis by simp
    qed
  qed
qed

lemma outer_loop_history:
  assumes "monotonic e"
  shows "history_ok e v0 s \<Longrightarrow> outer_loop fuel e s = (out, s') \<Longrightarrow> history_ok e v0 s'"
proof (induction fuel arbitrary: s)
  case 0
  then show ?case by simp
next
  case (Suc fuel)
  obtain r s0 where l: "load_running e s = (r, s0)"
    by (cases "load_running e s")
  from load_running_history [OF assms Suc.prems(1) l] have h0: "history_ok e v0 s0" .
  show ?case
  proof (cases r)
    case False
    with Suc.prems(2) l h0 show ?thesis by simp
  next
    case True
    show ?thesis
    proof (cases "openInputDevices e (allfds s0, devices s0, os s0)")
      case (Inl err)
      with Suc.prems(2) l True h0 show ?thesis by simp
    next
      case (Inr res)
      obtain fds devs w' where res: "res = (fds, devs, w')"
        by (cases res)
      define s1 where "s1 = s0\<lparr>allfds := fds, devices := devs, os := w'\<rparr>"
      from Inr res have "tick (os s0) \<le> tick w'"
        by (simp add: openInputDevices_tick)
      then have h1: "history_ok e v0 s1"
        by (intro history_ok_later [OF assms h0]) (simp_all add: s1_def)
      show ?thesis
      proof (cases "devs = []")
        case True
        have "history_ok e v0 (s1\<lparr>os := called (SysSleep 5000) (os s1)\<rparr>)"
          by (rule history_ok_called [OF assms h1])
        moreover from Suc.prems(2) l \<open>r\<close> Inr res True have
          "outer_loop fuel e (s1\<lparr>os := called (SysSleep 5000) (os s1)\<rparr>) = (out, s')"
          by (simp add: s1_def)
        ultimately show ?thesis
          by (rule Suc.IH)
      next
        case False
        obtain t s2 where g: "getCurrentTime e (s1\<lparr>isListening := True\<rparr>) = (t, s2)"
          by (cases "getCurrentTime e (s1\<lparr>isListening := True\<rparr>)")
        from h1 have "history_ok e v0 (s1\<lparr>isListening := True\<rparr>)"
          by (simp add: history_ok_locals)
        from getCurrentTime_history [OF assms this g] have h2: "history_ok e v0 (s2\<lparr>t_last := t\<rparr>)"
          by (simp add: history_ok_locals)
        obtain o3 s3 where i: "inner_loop fuel e (s2\<lparr>t_last := t\<rparr>) = (o3, s3)"
          by (cases "inner_loop fuel e (s2\<lparr>t_last := t\<rparr>)")
        from inner_loop_history [OF assms h2 i] have h3: "history_ok e v0 s3" .
        show ?thesis
        proof (cases "o3 = Left_inner")
          case True
          with Suc.prems(2) l \<open>r\<close> Inr res False g i have "outer_loop fuel e s3 = (out, s')"
            by (simp add: s1_def)
          from Suc.IH [OF h3 this] show ?thesis .
        next
          case no: False
          with Suc.prems(2) l \<open>r\<close> Inr res False g i have "s' = s3"
            by (cases o3) (simp_all add: s1_def)
          with h3 show ?thesis by simp
        qed
      qed
    qed
  qed
qed

lemma run_history:
  assumes "monotonic e" "m_lastOperateTime obj \<le> clock_gettime e 0"
  shows "history_ok e (m_lastOperateTime obj) (snd (run fuel e obj))"
proof -
  from assms have c: "m_lastOperateTime obj \<le> clock_gettime e 1"
    unfolding monotonic_def by (meson le_numeral_extra(3) order_trans zero_le)
  then have h: "history_ok e (m_lastOperateTime obj) (worker_init e obj)"
    by (simp add: history_ok_def worker_init_def)
  obtain out s where o: "outer_loop fuel e (worker_init e obj) = (out, s)"
    by (cases "outer_loop fuel e (worker_init e obj)")
  from outer_loop_history [OF assms(1) h o] have hs: "history_ok e (m_lastOperateTime obj) s" .
  show ?thesis
  proof (cases "out = Exited")
    case False
    with o have "run fuel e obj = (out, s)"
      by (cases out) (simp_all add: run_def)
    with hs show ?thesis by simp
  next
    case True
    obtain devs w' where cl: "closeInputDevices (devices s) (os s) = (devs, w')"
      by (cases "closeInputDevices (devices s) (os s)")
    have "history_ok e (m_lastOperateTime obj) (s\<lparr>devices := devs, os := w',
        this := (this s)\<lparr>m_isRunning := False, promises_set := promises_set (this s) + 1\<rparr>\<rparr>)"
      by (rule history_ok_later [OF assms(1) hs]) (simp_all add: closeInputDevices_tick [OF cl])
    with True o cl show ?thesis
      by (simp add: run_def)
  qed
qed

text \<open>
  C9. A fresh object holds the time 0. Let the worker run, for any number of passes, on an
  object whose time is not later than the clock, with a clock that is monotonic. Then
  every value the worker stores is a reading of the clock and is not smaller than the value
  stored before it (the first not smaller than the value the object held), and the object
  holds the last value stored: successive reads never see the time decrease.
\<close>

theorem C9_writes_monotone:
  assumes "monotonic e" and "m_lastOperateTime obj \<le> clock_gettime e 0"
  shows "m_lastOperateTime InputDeviceListener_ctor = 0 \<and>
         sorted (m_lastOperateTime obj # stores (snd (run fuel e obj))) \<and>
         set (stores (snd (run fuel e obj))) \<subseteq> range (clock_gettime e) \<and>
         m_lastOperateTime (this (snd (run fuel e obj))) =
           last (m_lastOperateTime obj # stores (snd (run fuel e obj)))"
  using run_history [OF assms, of fuel]
  by (simp add: history_ok_def InputDeviceListener_ctor_def)

theorem C9_witness:
  "stores (snd (run 3 typing_env InputDeviceListener_ctor)) = [9, 15] \<and>
   sorted (0 # stores (snd (run 3 typing_env InputDeviceListener_ctor)))"
proof -
  have m: "monotonic typing_env"
    by (simp add: monotonic_def typing_env_def)
  have z: "m_lastOperateTime InputDeviceListener_ctor \<le> clock_gettime typing_env 0"
    by (simp add: InputDeviceListener_ctor_def typing_env_def)
  have s: "stores (snd (run 3 typing_env InputDeviceListener_ctor)) = [9, 15]"
    by code_simp
  from C9_writes_monotone [OF m z, of 3] s show ?thesis
    by (simp add: InputDeviceListener_ctor_def)
qed

subsection \<open>Starting twice\<close>

lemma read_ready_this:
  "threads_started (this (read_ready e rfds seen rest s)) = threads_started (this s) \<and>
   promises_set (this (read_ready e rfds seen rest s)) = promises_set (this s) \<and>
   m_isRunning (this (read_ready e rfds seen rest s)) = m_isRunning (this s)"
proof (induction rest arbitrary: seen s)
  case Nil
  then show ?case by simp
next
  case (Cons it rest)
  show ?case
    by (simp add: Cons.IH getCurrentTime_def store_lastOperateTime_def Let_def
        split: prod.splits)
qed

lemma inner_body_this:
  assumes "inner_body e s = (f, s')"
  shows "threads_started (this s') = threads_started (this s) \<and>
         promises_set (this s') = promises_set (this s) \<and>
         m_isRunning (this s') = m_isRunning (this s)"
  using assms
  by (auto simp: inner_body_def getCurrentTime_def Let_def read_ready_this
      split: prod.splits if_splits)

lemma load_running_undisturbed:
  assumes "undisturbed e obj s" "load_running e s = (r, s0)"
  shows "undisturbed e obj s0 \<and> ((\<forall>t. load_isRunning e t) \<longrightarrow> r)"
  using assms by (auto simp: load_running_def Let_def undisturbed_def)

lemma inner_loop_undisturbed:
  "undisturbed e obj s \<Longrightarrow> inner_loop fuel e s = (out, s') \<Longrightarrow>
   undisturbed e obj s' \<and> out \<noteq> Exited"
proof (induction fuel arbitrary: s)
  case 0
  then show ?case by auto
next
  case (Suc fuel)
  obtain r s0 where l: "load_running e s = (r, s0)"
    by (cases "load_running e s")
  from load_running_undisturbed [OF Suc.prems(1) l] have u0: "undisturbed e obj s0"
    by simp
  show ?case
  proof (cases "r \<and> isListening s0")
    case False
    with Suc.prems(2) l u0 show ?thesis
      by auto
  next
    case True
    obtain f s1 where b: "inner_body e s0 = (f, s1)"
      by (cases "inner_body e s0")
    from inner_body_this [OF b] u0 have u1: "undisturbed e obj s1"
      by (simp add: undisturbed_def)
    show ?thesis
    proof (cases f)
      case Break
      with Suc.prems(2) l True b u1 show ?thesis by auto
    next
      case Continue
      with Suc.prems(2) l True b have "inner_loop fuel e s1 = (out, s')"
        by simp
      from Suc.IH [OF u1 this] show ?thesis .
    next
      case Undefined
      with Suc.prems(2) l True b u1 show ?thesis by auto
    qed
  qed
qed

lemma outer_loop_undisturbed:
  "undisturbed e obj s \<Longrightarrow> outer_loop fuel e s = (out, s') \<Longrightarrow>
   undisturbed e obj s' \<and> ((\<forall>t. load_isRunning e t) \<longrightarrow> out \<noteq> Exited)"
proof (induction fuel arbitrary: s)
  case 0
  then show ?case by auto
next
  case (Suc fuel)
  obtain r s0 where l: "load_running e s = (r, s0)"
    by (cases "load_running e s")
  from load_running_undisturbed [OF Suc.prems(1) l] have
    u0: "undisturbed e obj s0" "(\<forall>t. load_isRunning e t) \<longrightarrow> r"
    by simp_all
  show ?case
  proof (cases r)
    case False
    with Suc.prems(2) l u0 show ?thesis by auto
  next
    case True
    show ?thesis
    proof (cases "openInputDevices e (allfds s0, devices s0, os s0)")
      case (Inl err)
      with Suc.prems(2) l True u0 show ?thesis by auto
    next
      case (Inr res)
      obtain fds devs w' where res: "res = (fds, devs, w')"
        by (cases res)
      define s1 where "s1 = s0\<lparr>allfds := fds, devices := devs, os := w'\<rparr>"
      from u0(1) have u1: "undisturbed e obj s1"
        by (simp add: undisturbed_def s1_def)
      show ?thesis
      proof (cases "devs = []")
        case True
        from u1 have "undisturbed e obj (s1\<lparr>os := called (SysSleep 5000) (os s1)\<rparr>)"
          by (simp add: undisturbed_def)
        moreover from Suc.prems(2) l \<open>r\<close> Inr res True have
          "outer_loop fuel e (s1\<lparr>os := called (SysSleep 5000) (os s1)\<rparr>) = (out, s')"
          by (simp add: s1_def)
        ultimately show ?thesis
          by (rule Suc.IH)
      next
        case False
        obtain t s2 where g: "getCurrentTime e (s1\<lparr>isListening := True\<rparr>) = (t, s2)"
          by (cases "getCurrentTime e (s1\<lparr>isListening := True\<rparr>)")
        from u1 g have u2: "undisturbed e obj (s2\<lparr>t_last := t\<rparr>)"
          by (auto simp: undisturbed_def getCurrentTime_def)
        obtain o3 s3 where i: "inner_loop fuel e (s2\<lparr>t_last := t\<rparr>) = (o3, s3)"
          by (cases "inner_loop fuel e (s2\<lparr>t_last := t\<rparr>)")
        from inner_loop_undisturbed [OF u2 i] have
          u3: "undisturbed e obj s3" "o3 \<noteq> Exited"
          by simp_all
        show ?thesis
        proof (cases "o3 = Left_inner")
          case True
          with Suc.prems(2) l \<open>r\<close> Inr res False g i have "outer_loop fuel e s3 = (out, s')"
            by (simp add: s1_def)
          from Suc.IH [OF u3(1) this] show ?thesis .
        next
          case no: False
          with Suc.prems(2) l \<open>r\<close> Inr res False g i have "s' = s3 \<and> out = o3"
            by (cases o3) (simp_all add: s1_def)
          with u3 show ?thesis by simp
        qed
      qed
    qed
  qed
qed

lemma run_counters:
  "threads_started (this (snd (run fuel e obj))) = threads_started obj \<and>
   promises_set (this (snd (run fuel e obj))) =
     promises_set obj + (if fst (run fuel e obj) = Exited then 1 else 0) \<and>
   ((\<forall>t. load_isRunning e t) \<and> m_isRunning obj \<longrightarrow>
      fst (run fuel e obj) \<noteq> Exited \<and> m_isRunning (this (snd (run fuel e obj))))"
proof -
  obtain out s where o: "outer_loop fuel e (worker_init e obj) = (out, s)"
    by (cases "outer_loop fuel e (worker_init e obj)")
  have "undisturbed e obj (worker_init e obj)"
    by (simp add: undisturbed_def worker_init_def)
  from outer_loop_undisturbed [OF this o] have
    r: "undisturbed e obj s" "(\<forall>t. load_isRunning e t) \<longrightarrow> out \<noteq> Exited"
    by simp_all
  show ?thesis
  proof (cases "out = Exited")
    case True
    with o r show ?thesis
      by (auto simp: run_def undisturbed_def split: prod.splits)
  next
    case False
    with o have "run fuel e obj = (out, s)"
      by (cases out) (simp_all add: run_def)
    with r False show ?thesis
      by (simp add: undisturbed_def)
  qed
qed

text \<open>
  C8. \<^verbatim>\<open>start()\<close> returns true and leaves the monitor running, whether it was running or
  not. Let the worker then make any number of passes while nobody calls \<^verbatim>\<open>stop()\<close>
  (every load of the flag gives true): a second \<^verbatim>\<open>start()\<close> returns true again, the
  monitor is still running, the two calls have started one thread if the monitor was
  stopped and none if it was running, and no promise has been set. However the worker runs
  afterwards, it sets its promise at most once.
\<close>

theorem C8_start_idempotent:
  assumes "\<forall>t. load_isRunning e t"
  shows "fst (start obj) \<and> isRunning (snd (start obj)) \<and>
         fst (start (this (snd (run fuel e (snd (start obj)))))) \<and>
         isRunning (snd (start (this (snd (run fuel e (snd (start obj))))))) \<and>
         threads_started (snd (start (this (snd (run fuel e (snd (start obj))))))) =
           threads_started obj + (if m_isRunning obj then 0 else 1) \<and>
         promises_set (snd (start (this (snd (run fuel e (snd (start obj))))))) =
           promises_set obj \<and>
         promises_set (this (snd (run fuel' e' (snd (start obj))))) \<le> promises_set obj + 1"
proof -
  define obj1 where "obj1 = snd (start obj)"
  have s1: "fst (start obj)" "m_isRunning obj1"
    "threads_started obj1 = threads_started obj + (if m_isRunning obj then 0 else 1)"
    "promises_set obj1 = promises_set obj"
    by (simp_all add: obj1_def start_def listen_def)
  define obj2 where "obj2 = this (snd (run fuel e obj1))"
  from run_counters [of fuel e obj1] assms s1(2) have
    u: "m_isRunning obj2" "threads_started obj2 = threads_started obj1"
    "promises_set obj2 = promises_set obj1"
    by (simp_all add: obj2_def)
  then have "start obj2 = (True, obj2)"
    by (simp add: start_def listen_def)
  moreover from run_counters [of fuel' e' obj1] have
    "promises_set (this (snd (run fuel' e' obj1))) \<le> promises_set obj1 + 1"
    by simp
  ultimately show ?thesis
    using s1 u unfolding obj2_def [symmetric] obj1_def [symmetric] by (simp add: isRunning_def)
qed

theorem C8_witness:
  "isRunning (snd (start InputDeviceListener_ctor)) \<and>
   isRunning (snd (start (this (snd (run 3 typing_env (snd (start InputDeviceListener_ctor))))))) \<and>
   threads_started
     (snd (start (this (snd (run 3 typing_env (snd (start InputDeviceListener_ctor))))))) = 1 \<and>
   promises_set
     (snd (start (this (snd (run 3 typing_env (snd (start InputDeviceListener_ctor))))))) = 0"
proof -
  have l: "\<forall>t. load_isRunning typing_env t"
    by (simp add: typing_env_def)
  from C8_start_idempotent [OF l, of InputDeviceListener_ctor 3] show ?thesis
    by (simp add: InputDeviceListener_ctor_def)
qed

end
